theory Spec2Isabelle
  imports Main "HOL-Library.AList" "HOL-Library.Sublist"
begin

section \<open>Python library functions used by \<open>BasicDoc\<close>\<close>

text \<open>
  The document class of \<^verbatim>\<open>paperwork/backend/common/doc.py\<close> is Python 2 code. Its text
  values are modelled as \<^typ>\<open>string\<close>: a character is a code point below 256. What is
  read through \<^verbatim>\<open>codecs\<close> is a unicode object, and \<^verbatim>\<open>strip\<close> and \<^verbatim>\<open>splitlines\<close> classify
  characters as Python 2 does for unicode objects on that range. The id of a document is a
  byte string, as \<^verbatim>\<open>time.strftime\<close> and the \<^verbatim>\<open>%\<close> operator of \<^verbatim>\<open>__set_date\<close> make it, and
  \<^verbatim>\<open>int\<close> reads it with the whitespace of C.
\<close>

datatype error = IndexError | ValueError | IOError | OSError

definition is_space :: "char \<Rightarrow> bool" where
  \<comment> \<open>the characters \<^verbatim>\<open>strip()\<close> removes: TAB, LF, VT, FF, CR, FS, GS, RS, US, SPACE, NEL, NBSP\<close>
  "is_space c = (of_char c \<in> {9, 10, 11, 12, 13, 28, 29, 30, 31, 32, 133, 160 :: nat})"

definition is_digit :: "char \<Rightarrow> bool" where
  "is_digit c = (48 \<le> (of_char c :: nat) \<and> (of_char c :: nat) \<le> 57)"

definition strip :: "string \<Rightarrow> string" where
  \<comment> \<open>\<^verbatim>\<open>s.strip()\<close>\<close>
  "strip s = rev (dropWhile is_space (rev (dropWhile is_space s)))"

fun split_on :: "char \<Rightarrow> string \<Rightarrow> string list" where
  \<comment> \<open>\<^verbatim>\<open>s.split(sep)\<close> for a separator of one character\<close>
  "split_on sep [] = [[]]"
| "split_on sep (c # cs) =
     (if c = sep then [] # split_on sep cs
      else (let r = split_on sep cs in (c # hd r) # tl r))"

definition slice :: "nat \<Rightarrow> nat \<Rightarrow> string \<Rightarrow> string" where
  \<comment> \<open>\<^verbatim>\<open>s[i:j]\<close> for \<open>0 \<le> i \<le> j\<close>: a slice never raises, it is cut at the end of the string\<close>
  "slice i j s = take (j - i) (drop i s)"

definition digit_val :: "char \<Rightarrow> nat" where
  "digit_val c = of_char c - 48"

definition digits_val :: "string \<Rightarrow> nat" where
  "digits_val s = foldl (\<lambda>acc c. 10 * acc + digit_val c) 0 s"

definition is_cspace :: "char \<Rightarrow> bool" where
  \<comment> \<open>\<^verbatim>\<open>isspace\<close> of C: TAB, LF, VT, FF, CR, SPACE\<close>
  "is_cspace c = (of_char c \<in> {9, 10, 11, 12, 13, 32 :: nat})"

definition py_int :: "string \<Rightarrow> error + int" where
  \<comment> \<open>\<^verbatim>\<open>int(s)\<close> of a byte string in Python 2: whitespace, an optional sign, whitespace again,
      decimal digits, whitespace; anything else raises ValueError\<close>
  "py_int s =
     (let t = dropWhile is_cspace s;
          neg = (t \<noteq> [] \<and> hd t = CHR ''-'');
          u = (if t \<noteq> [] \<and> (hd t = CHR ''-'' \<or> hd t = CHR ''+'') then tl t else t);
          v = dropWhile is_cspace u;
          digits = takeWhile is_digit v;
          rest = dropWhile is_cspace (dropWhile is_digit v)
      in if digits = [] \<or> rest \<noteq> [] then Inl ValueError
         else Inr (if neg then - int (digits_val digits) else int (digits_val digits)))"

definition is_linebreak :: "char \<Rightarrow> bool" where
  \<comment> \<open>the characters that end a line for \<^verbatim>\<open>splitlines\<close>: LF, VT, FF, CR, FS, GS, RS, NEL\<close>
  "is_linebreak c = (of_char c \<in> {10, 11, 12, 13, 28, 29, 30, 133 :: nat})"

fun splitlines :: "string \<Rightarrow> string \<Rightarrow> string list" where
  \<comment> \<open>\<^verbatim>\<open>s.splitlines(True)\<close>, which is what \<^verbatim>\<open>readlines()\<close> of a \<^verbatim>\<open>codecs\<close> reader returns:
      every line keeps its end, CR LF is one line end, and there is no empty last line;
      the first argument is the line read so far\<close>
  "splitlines cur [] = (if cur = [] then [] else [cur])"
| "splitlines cur (c # cs) =
     (if c = CHR 0x0D \<and> cs \<noteq> [] \<and> hd cs = CHR 0x0A
        then (cur @ [c, CHR 0x0A]) # splitlines [] (tl cs)
      else if is_linebreak c then (cur @ [c]) # splitlines [] cs
      else splitlines (cur @ [c]) cs)"

definition readlines :: "string \<Rightarrow> string list" where
  "readlines text = splitlines [] text"

definition digit_char :: "nat \<Rightarrow> char" where
  "digit_char k = char_of (48 + k)"

fun dec :: "nat \<Rightarrow> string" where
  \<comment> \<open>the decimal digits of a natural number\<close>
  "dec n = (if n < 10 then [digit_char n] else dec (n div 10) @ [digit_char (n mod 10)])"

declare dec.simps [simp del]

definition fmt02d :: "int \<Rightarrow> string" where
  \<comment> \<open>\<^verbatim>\<open>"%02d" % n\<close>: at least two characters, padded with zeros on the left; the sign
      of a negative number counts as one of them\<close>
  "fmt02d n =
     (if n < 0 then CHR ''-'' # dec (nat (- n))
      else if length (dec (nat n)) < 2 then CHR ''0'' # dec (nat n)
      else dec (nat n))"

definition path_join :: "string \<Rightarrow> string \<Rightarrow> string" where
  \<comment> \<open>\<^verbatim>\<open>os.path.join(a, b)\<close> of \<^verbatim>\<open>posixpath\<close>\<close>
  "path_join a b =
     (if b \<noteq> [] \<and> hd b = CHR ''/'' then b
      else if a = [] \<or> last a = CHR ''/'' then a @ b
      else a @ ''/'' @ b)"

definition path_dirname :: "string \<Rightarrow> string" where
  \<comment> \<open>\<^verbatim>\<open>os.path.dirname(p)\<close> of \<^verbatim>\<open>posixpath\<close>: the part up to the last slash, without its
      trailing slashes unless it consists of slashes only\<close>
  "path_dirname p =
     (let head = rev (dropWhile (\<lambda>c. c \<noteq> CHR ''/'') (rev p)) in
      if head \<noteq> [] \<and> \<not> list_all (\<lambda>c. c = CHR ''/'') head
      then rev (dropWhile (\<lambda>c. c = CHR ''/'') (rev head))
      else head)"

subsection \<open>The file system\<close>

text \<open>
  A place in the file system is the list of names that leads to it from the root, and the
  file system is a finite table from places to entries, together with the current directory
  of the process. The root is a directory. A file holds its text, that is its bytes decoded
  as UTF-8. Symbolic links, permissions and files that do not decode are not modelled.
\<close>

datatype node = Dir | File string

type_synonym loc = "string list"

record filesystem =
  cwd :: loc
  table :: "(loc \<times> node) list"

definition entry :: "filesystem \<Rightarrow> loc \<Rightarrow> node option" where
  "entry fs l = (if l = [] then Some Dir else map_of (table fs) l)"

definition is_dir :: "filesystem \<Rightarrow> loc \<Rightarrow> bool" where
  "is_dir fs l = (entry fs l = Some Dir)"

text \<open>
  The system resolves a path name by name: each name is looked up in a place that must be
  a directory, an empty name (two slashes, or a slash at the end) and \<open>.\<close> stay there, and
  \<open>..\<close> goes up. The last name need not exist. The empty path resolves to nothing.
\<close>

fun walk :: "filesystem \<Rightarrow> loc \<Rightarrow> string list \<Rightarrow> loc option" where
  "walk fs cur [] = Some cur"
| "walk fs cur (c # cs) =
     (if \<not> is_dir fs cur then None
      else if c = [] \<or> c = ''.'' then walk fs cur cs
      else if c = ''..'' then walk fs (butlast cur) cs
      else walk fs (cur @ [c]) cs)"

definition resolve :: "filesystem \<Rightarrow> string \<Rightarrow> loc option" where
  "resolve fs p =
     (if p = [] then None
      else walk fs (if hd p = CHR ''/'' then [] else cwd fs) (split_on CHR ''/'' p))"

definition node_at :: "filesystem \<Rightarrow> string \<Rightarrow> node option" where
  \<comment> \<open>what \<^verbatim>\<open>os.stat(p)\<close> finds\<close>
  "node_at fs p = (case resolve fs p of None \<Rightarrow> None | Some l \<Rightarrow> entry fs l)"

definition path_exists :: "filesystem \<Rightarrow> string \<Rightarrow> bool" where
  \<comment> \<open>\<^verbatim>\<open>os.path.exists(p)\<close>\<close>
  "path_exists fs p = (node_at fs p \<noteq> None)"

definition put :: "loc \<Rightarrow> node \<Rightarrow> filesystem \<Rightarrow> filesystem" where
  "put l n fs = fs\<lparr>table := AList.update l n (table fs)\<rparr>"

definition last_name :: "string \<Rightarrow> string" where
  \<comment> \<open>the last name of a path, the slashes at its end left aside\<close>
  "last_name p = (case filter (\<lambda>c. c \<noteq> []) (split_on CHR ''/'' p) of [] \<Rightarrow> [] | c # cs \<Rightarrow> last (c # cs))"

definition strip_slashes :: "string \<Rightarrow> string" where
  \<comment> \<open>the path without the slashes at its end, unless it has slashes only\<close>
  "strip_slashes p =
     (let q = rev (dropWhile (\<lambda>c. c = CHR ''/'') (rev p)) in if q = [] then p else q)"

definition move :: "loc \<Rightarrow> loc \<Rightarrow> loc \<Rightarrow> loc" where
  \<comment> \<open>where the place \<open>l\<close> is after the place \<open>s\<close> has become the place \<open>t\<close>\<close>
  "move s t l = (if prefix s l then t @ drop (length s) l else l)"

definition os_rename :: "string \<Rightarrow> string \<Rightarrow> filesystem \<Rightarrow> error + filesystem" where
  \<comment> \<open>\<^verbatim>\<open>os.rename(src, dst)\<close>. OSError when a path ends in \<open>.\<close> or \<open>..\<close>, when the source is
      missing or is the root, when the destination does not resolve, is taken (\<open>set_docid\<close> asks
      for a destination that its loop has found free), has no directory to be in or lies
      below the source. A directory may be given a destination that ends in a slash.
      Otherwise the entry moves with everything below it\<close>
  "os_rename src dst fs =
     (if last_name src \<in> {''.'', ''..''} \<or> last_name dst \<in> {''.'', ''..''} then Inl OSError
      else case resolve fs src of
        None \<Rightarrow> Inl OSError
      | Some s \<Rightarrow>
         (case entry fs s of
            None \<Rightarrow> Inl OSError
          | Some n \<Rightarrow>
             if s = [] then Inl OSError
             else (case resolve fs (if n = Dir then strip_slashes dst else dst) of
                None \<Rightarrow> Inl OSError
              | Some t \<Rightarrow>
                 if t = [] \<or> list_ex (\<lambda>(l, m). prefix t l) (table fs) then Inl OSError
                 else if \<not> is_dir fs (butlast t) then Inl OSError
                 else if prefix s t then Inl OSError
                 else Inr \<lparr>cwd = move s t (cwd fs),
                           table = map (\<lambda>(l, m). (move s t l, m)) (table fs)\<rparr>)))"

definition open_read :: "string \<Rightarrow> filesystem \<Rightarrow> error + string" where
  \<comment> \<open>\<^verbatim>\<open>codecs.open(p, 'r')\<close> and the whole text: IOError unless \<open>p\<close> is a file\<close>
  "open_read p fs = (case node_at fs p of Some (File text) \<Rightarrow> Inr text | _ \<Rightarrow> Inl IOError)"

definition open_append :: "string \<Rightarrow> string \<Rightarrow> filesystem \<Rightarrow> error + filesystem" where
  \<comment> \<open>\<^verbatim>\<open>codecs.open(p, 'a')\<close> and one \<^verbatim>\<open>write\<close>: the file is created in its directory when it
      is missing; IOError when \<open>p\<close> is a directory or has no directory to be created in\<close>
  "open_append p text fs =
     (case resolve fs p of
        None \<Rightarrow> Inl IOError
      | Some l \<Rightarrow>
         (case entry fs l of
            Some (File old) \<Rightarrow> Inr (put l (File (old @ text)) fs)
          | Some Dir \<Rightarrow> Inl IOError
          | None \<Rightarrow> if is_dir fs (butlast l) then Inr (put l (File text) fs) else Inl IOError))"

definition open_write :: "string \<Rightarrow> string \<Rightarrow> filesystem \<Rightarrow> error + filesystem" where
  \<comment> \<open>\<^verbatim>\<open>codecs.open(p, 'w')\<close> and the writes that follow: the old text is lost\<close>
  "open_write p text fs =
     (case resolve fs p of
        None \<Rightarrow> Inl IOError
      | Some l \<Rightarrow>
         (case entry fs l of
            Some (File old) \<Rightarrow> Inr (put l (File text) fs)
          | Some Dir \<Rightarrow> Inl IOError
          | None \<Rightarrow> if is_dir fs (butlast l) then Inr (put l (File text) fs) else Inl IOError))"

definition os_unlink :: "string \<Rightarrow> filesystem \<Rightarrow> error + filesystem" where
  \<comment> \<open>\<^verbatim>\<open>os.unlink(p)\<close>: OSError unless \<open>p\<close> is a file\<close>
  "os_unlink p fs =
     (case resolve fs p of
        None \<Rightarrow> Inl OSError
      | Some l \<Rightarrow>
         (case entry fs l of
            Some (File text) \<Rightarrow> Inr (fs\<lparr>table := AList.delete l (table fs)\<rparr>)
          | _ \<Rightarrow> Inl OSError))"

definition os_access :: "string \<Rightarrow> filesystem \<Rightarrow> bool" where
  \<comment> \<open>\<^verbatim>\<open>os.access(p, os.R_OK)\<close>: the entry exists\<close>
  "os_access p fs = (node_at fs p \<noteq> None)"

section \<open>The document\<close>

text \<open>
  Modelled from the spec: the class \<^verbatim>\<open>paperwork.backend.labels.Label\<close> is imported by
  \<^verbatim>\<open>doc.py\<close> and its source is missing. The spec gives a label two fields, a name and
  a colour in serialized string form, and equality on both; \<^verbatim>\<open>Label(name=n, color=c)\<close> is
  the record and \<^verbatim>\<open>get_color_str()\<close> its second field.
\<close>

record label =
  name :: string
  color :: string

definition get_color_str :: "label \<Rightarrow> string" where
  "get_color_str l = color l"

text \<open>
  The object: \<^verbatim>\<open>self.__docid\<close>, \<^verbatim>\<open>self.path\<close> and the dictionary \<^verbatim>\<open>self.__cache\<close>, which
  has the two keys \<^verbatim>\<open>'nb_pages'\<close> and \<^verbatim>\<open>'labels'\<close>; a key that is absent is \<open>None\<close>.
\<close>

record doc =
  docid :: string
  path :: string
  cache_nb_pages :: "nat option"
  cache_labels :: "label list option"

definition drop_cache :: "doc \<Rightarrow> doc" where
  "drop_cache d = d\<lparr>cache_nb_pages := None, cache_labels := None\<rparr>"

subsection \<open>The date of a document\<close>

text \<open>
  The texts that \<^verbatim>\<open>int\<close> converts, as a grammar: whitespace, an optional sign, whitespace,
  at least one digit, whitespace.
\<close>

definition int_literal :: "string \<Rightarrow> bool" where
  "int_literal s \<longleftrightarrow>
     (\<exists>a sg b ds c. s = a @ sg @ b @ ds @ c \<and> list_all is_cspace a \<and>
        (sg = [] \<or> sg = ''+'' \<or> sg = ''-'') \<and> list_all is_cspace b \<and>
        ds \<noteq> [] \<and> list_all is_digit ds \<and> list_all is_cspace c)"

definition leading_segment :: "string \<Rightarrow> string" where
  \<comment> \<open>\<^verbatim>\<open>docid.split("_")[0]\<close>: the list has at least one element\<close>
  "leading_segment i = hd (split_on (CHR ''_'') i)"

definition date_of_docid :: "string \<Rightarrow> error + (int \<times> int \<times> int)" where
  \<comment> \<open>the body of the \<^verbatim>\<open>try\<close> in \<^verbatim>\<open>__get_date\<close>: the three conversions are made from left
      to right\<close>
  "date_of_docid i =
     (let split = leading_segment i in
      case py_int (slice 0 4 split) of
        Inl e \<Rightarrow> Inl e
      | Inr y \<Rightarrow>
         (case py_int (slice 4 6 split) of
            Inl e \<Rightarrow> Inl e
          | Inr m \<Rightarrow>
             (case py_int (slice 6 8 split) of
                Inl e \<Rightarrow> Inl e
              | Inr dd \<Rightarrow> Inr (y, m, dd))))"

definition get_date :: "doc \<Rightarrow> error + (int \<times> int \<times> int)" where
  \<comment> \<open>\<^verbatim>\<open>except (IndexError, ValueError): return (1985, 12, 19)\<close>; any other exception
      would leave the function\<close>
  "get_date d =
     (case date_of_docid (docid d) of
        Inr r \<Rightarrow> Inr r
      | Inl IndexError \<Rightarrow> Inr (1985, 12, 19)
      | Inl ValueError \<Rightarrow> Inr (1985, 12, 19)
      | Inl e \<Rightarrow> Inl e)"

subsection \<open>The id of a document\<close>

type_synonym 'a outcome = "(error + 'a) \<times> doc \<times> filesystem"

function docid_loop ::
  "filesystem \<Rightarrow> string \<Rightarrow> string \<Rightarrow> nat \<Rightarrow> string \<Rightarrow> string \<Rightarrow> string \<times> string" where
  \<comment> \<open>the \<^verbatim>\<open>while\<close> loop of \<^verbatim>\<open>__set_docid\<close>, on its variables \<^verbatim>\<open>idx\<close>, \<^verbatim>\<open>new_docid\<close> and
      \<^verbatim>\<open>new_docpath\<close>\<close>
  "docid_loop fs workdir new_base_docid idx new_docid new_docpath =
     (if path_exists fs new_docpath then
        docid_loop fs workdir new_base_docid (idx + 1)
          (new_base_docid @ ''_'' @ fmt02d (int (idx + 1)))
          (path_join workdir (new_base_docid @ ''_'' @ fmt02d (int (idx + 1))))
      else (new_docid, new_docpath))"
  by pat_completeness auto

text \<open>The path the loop probes in round \<open>j\<close>, for \<open>j \<ge> 1\<close>.\<close>

definition candidate :: "string \<Rightarrow> string \<Rightarrow> nat \<Rightarrow> string" where
  "candidate workdir base j = path_join workdir (base @ ''_'' @ fmt02d (int j))"

definition set_docid :: "string \<Rightarrow> doc \<times> filesystem \<Rightarrow> unit outcome" where
  \<comment> \<open>\<^verbatim>\<open>__set_docid\<close>: the id is assigned before the rename, the path after it; an
      exception of \<^verbatim>\<open>os.rename\<close> leaves the method with the object as it is then\<close>
  "set_docid new_base_docid = (\<lambda>(d, fs).
     let workdir = path_dirname (path d);
         (new_docid, new_docpath) =
            docid_loop fs workdir new_base_docid 0 new_base_docid
              (path_join workdir new_base_docid);
         d1 = d\<lparr>docid := new_docid\<rparr>
     in if path d1 \<noteq> new_docpath then
          (case os_rename (path d1) new_docpath fs of
             Inl e \<Rightarrow> (Inl e, d1, fs)
           | Inr fs' \<Rightarrow> (Inr (), d1\<lparr>path := new_docpath\<rparr>, fs'))
        else (Inr (), d1, fs))"

definition set_date :: "int \<times> int \<times> int \<Rightarrow> doc \<times> filesystem \<Rightarrow> unit outcome" where
  \<comment> \<open>\<^verbatim>\<open>__set_date\<close>: all three fields are written with \<^verbatim>\<open>%02d\<close>\<close>
  "set_date new_date =
     (case new_date of (y, m, dd) \<Rightarrow>
        set_docid (fmt02d y @ fmt02d m @ fmt02d dd @ ''_0000_01''))"

subsection \<open>The labels of a document\<close>

definition label_file :: "doc \<Rightarrow> string" where
  \<comment> \<open>\<^verbatim>\<open>os.path.join(self.path, self.LABEL_FILE)\<close>\<close>
  "label_file d = path_join (path d) ''labels''"

definition label_line :: "label \<Rightarrow> string" where
  \<comment> \<open>\<^verbatim>\<open>"%s,%s\n" % (label.name, label.get_color_str())\<close>\<close>
  "label_line l = name l @ '','' @ get_color_str l @ [CHR 0x0A]"

fun parse_lines :: "string list \<Rightarrow> label list \<Rightarrow> error + label list" where
  \<comment> \<open>the \<^verbatim>\<open>for\<close> loop of \<^verbatim>\<open>__get_labels\<close> on the list \<^verbatim>\<open>labels\<close>: unpacking anything but two
      fields raises ValueError\<close>
  "parse_lines [] labels = Inr labels"
| "parse_lines (line # rest) labels =
     (case split_on (CHR '','') (strip line) of
        [label_name, label_color] \<Rightarrow>
          parse_lines rest (labels @ [\<lparr>name = label_name, color = label_color\<rparr>])
      | _ \<Rightarrow> Inl ValueError)"

definition get_labels :: "doc \<times> filesystem \<Rightarrow> label list outcome" where
  \<comment> \<open>\<^verbatim>\<open>__get_labels\<close>: IOError is caught and leaves the empty list, which is cached as
      well; ValueError leaves the method before the cache is written\<close>
  "get_labels = (\<lambda>(d, fs).
     case cache_labels d of
       Some labels \<Rightarrow> (Inr labels, d, fs)
     | None \<Rightarrow>
        (case open_read (label_file d) fs of
           Inl e \<Rightarrow> (Inr [], d\<lparr>cache_labels := Some []\<rparr>, fs)
         | Inr text \<Rightarrow>
            (case parse_lines (readlines text) [] of
               Inl e \<Rightarrow> (Inl e, d, fs)
             | Inr labels \<Rightarrow> (Inr labels, d\<lparr>cache_labels := Some labels\<rparr>, fs))))"

definition add_label :: "label \<Rightarrow> doc \<times> filesystem \<Rightarrow> unit outcome" where
  \<comment> \<open>\<^verbatim>\<open>label in self.labels\<close> compares with the equality of labels; one line is appended
      and the cache is dropped\<close>
  "add_label l = (\<lambda>(d, fs).
     case get_labels (d, fs) of
       (Inl e, d1, fs1) \<Rightarrow> (Inl e, d1, fs1)
     | (Inr labels, d1, fs1) \<Rightarrow>
        if l \<in> set labels then (Inr (), d1, fs1)
        else (case open_append (label_file d1) (label_line l) fs1 of
                Inl e \<Rightarrow> (Inl e, d1, fs1)
              | Inr fs2 \<Rightarrow> (Inr (), drop_cache d1, fs2)))"

definition remove_label :: "label \<Rightarrow> doc \<times> filesystem \<Rightarrow> unit outcome" where
  \<comment> \<open>\<^verbatim>\<open>labels.remove(to_remove)\<close> works on the cached list itself and takes the first
      equal element out; the file is then written again from that list\<close>
  "remove_label to_remove = (\<lambda>(d, fs).
     case get_labels (d, fs) of
       (Inl e, d1, fs1) \<Rightarrow> (Inl e, d1, fs1)
     | (Inr labels, d1, fs1) \<Rightarrow>
        if to_remove \<notin> set labels then (Inr (), d1, fs1)
        else (let labels' = remove1 to_remove labels;
                  d2 = d1\<lparr>cache_labels := Some labels'\<rparr>
              in case open_write (label_file d2) (concat (map label_line labels')) fs1 of
                   Inl e \<Rightarrow> (Inl e, d2, fs1)
                 | Inr fs2 \<Rightarrow> (Inr (), drop_cache d2, fs2)))"

definition update_label :: "label \<Rightarrow> label \<Rightarrow> doc \<times> filesystem \<Rightarrow> unit outcome" where
  \<comment> \<open>\<^verbatim>\<open>labels.remove(old_label)\<close> raises ValueError when the label is not in the list, and
      the method returns; otherwise the new label goes to the end. The line written to the
      log is left out\<close>
  "update_label old_label new_label = (\<lambda>(d, fs).
     case get_labels (d, fs) of
       (Inl e, d1, fs1) \<Rightarrow> (Inl e, d1, fs1)
     | (Inr labels, d1, fs1) \<Rightarrow>
        if old_label \<notin> set labels then (Inr (), d1, fs1)
        else (let labels' = remove1 old_label labels @ [new_label];
                  d2 = d1\<lparr>cache_labels := Some labels'\<rparr>
              in case open_write (label_file d2) (concat (map label_line labels')) fs1 of
                   Inl e \<Rightarrow> (Inl e, d2, fs1)
                 | Inr fs2 \<Rightarrow> (Inr (), drop_cache d2, fs2)))"

subsection \<open>Labels that the file format keeps, and files that hold labels\<close>

text \<open>
  The label file has no escaping, and a line is stripped before it is split. A label comes
  back from its line as it is when neither field has a comma or a character that ends a line,
  the name does not begin with whitespace and the colour does not end with it.
\<close>

definition clean_label :: "label \<Rightarrow> bool" where
  "clean_label l \<longleftrightarrow>
     list_all (\<lambda>c. c \<noteq> CHR '','' \<and> \<not> is_linebreak c) (name l @ color l) \<and>
     (name l = [] \<or> \<not> is_space (hd (name l))) \<and>
     (color l = [] \<or> \<not> is_space (last (color l)))"

text \<open>
  The label file of the document holds the labels \<open>ls\<close>: its path resolves, and either it
  is missing, \<open>ls\<close> is empty and the file can be created, or it is a file whose last line is
  ended by LF and whose lines load as \<open>ls\<close>.
\<close>

definition labels_on_disk :: "filesystem \<Rightarrow> doc \<Rightarrow> label list \<Rightarrow> bool" where
  "labels_on_disk fs d ls \<longleftrightarrow>
     (case resolve fs (label_file d) of
        None \<Rightarrow> False
      | Some l \<Rightarrow>
         (case entry fs l of
            None \<Rightarrow> ls = [] \<and> is_dir fs (butlast l)
          | Some Dir \<Rightarrow> False
          | Some (File text) \<Rightarrow>
              (text = [] \<or> last text = CHR 0x0A) \<and> parse_lines (readlines text) [] = Inr ls))"

definition cache_agrees :: "doc \<Rightarrow> label list \<Rightarrow> bool" where
  \<comment> \<open>the cache has no list of labels, or the list \<open>ls\<close>\<close>
  "cache_agrees d ls \<longleftrightarrow> cache_labels d = None \<or> cache_labels d = Some ls"

fun add_labels :: "label list \<Rightarrow> doc \<times> filesystem \<Rightarrow> unit outcome" where
  \<comment> \<open>a caller: \<^verbatim>\<open>for l in labels: doc.add_label(l)\<close>\<close>
  "add_labels [] s = (Inr (), s)"
| "add_labels (l # ls) s =
     (case add_label l s of
        (Inl e, s') \<Rightarrow> (Inl e, s')
      | (Inr u, s') \<Rightarrow> add_labels ls s')"

subsection \<open>The extra text of a document\<close>

definition extra_text_file :: "doc \<Rightarrow> string" where
  \<comment> \<open>\<^verbatim>\<open>os.path.join(self.path, self.EXTRA_TEXT_FILE)\<close>\<close>
  "extra_text_file d = path_join (path d) ''extra.txt''"

definition get_extra_text :: "doc \<times> filesystem \<Rightarrow> string outcome" where
  \<comment> \<open>\<^verbatim>\<open>__get_extra_text\<close>: the empty text when \<^verbatim>\<open>os.access\<close> finds nothing to read\<close>
  "get_extra_text = (\<lambda>(d, fs).
     if \<not> os_access (extra_text_file d) fs then (Inr [], d, fs)
     else (case open_read (extra_text_file d) fs of
             Inl e \<Rightarrow> (Inl e, d, fs)
           | Inr text \<Rightarrow> (Inr text, d, fs)))"

definition set_extra_text :: "string \<Rightarrow> doc \<times> filesystem \<Rightarrow> unit outcome" where
  \<comment> \<open>\<^verbatim>\<open>__set_extra_text\<close>: nothing is tested before \<^verbatim>\<open>os.unlink\<close>\<close>
  "set_extra_text txt = (\<lambda>(d, fs).
     let txt' = strip txt in
     if txt' = [] then
       (case os_unlink (extra_text_file d) fs of
          Inl e \<Rightarrow> (Inl e, d, fs)
        | Inr fs' \<Rightarrow> (Inr (), d, fs'))
     else
       (case open_write (extra_text_file d) txt' fs of
          Inl e \<Rightarrow> (Inl e, d, fs)
        | Inr fs' \<Rightarrow> (Inr (), d, fs')))"

subsection \<open>Sample documents and file systems\<close>

definition new_doc :: doc where
  \<comment> \<open>a document that was constructed without an id and is not on the disk yet\<close>
  "new_doc = \<lparr>docid = ''20240101_1200_00'', path = ''/w/20240101_1200_00'',
              cache_nb_pages = None, cache_labels = None\<rparr>"

definition doc_a :: doc where
  "doc_a = \<lparr>docid = ''a'', path = ''/w/a'', cache_nb_pages = None, cache_labels = None\<rparr>"

definition fs_w :: filesystem where
  \<comment> \<open>the work directory alone\<close>
  "fs_w = \<lparr>cwd = [], table = [([''w''], Dir)]\<rparr>"

definition fs_a :: filesystem where
  \<comment> \<open>the work directory and the directory of \<open>doc_a\<close>, which has no file\<close>
  "fs_a = \<lparr>cwd = [], table = [([''w''], Dir), ([''w'', ''a''], Dir)]\<rparr>"

definition fs_ab :: filesystem where
  "fs_ab = \<lparr>cwd = [], table = [([''w''], Dir), ([''w'', ''a''], Dir), ([''w'', ''b''], Dir)]\<rparr>"

definition doc_b01 :: doc where
  \<comment> \<open>\<open>doc_a\<close> after it has been given the id \<open>b\<close> in \<open>fs_ab\<close>\<close>
  "doc_b01 = doc_a\<lparr>docid := ''b_01'', path := ''/w/b_01''\<rparr>"

definition fs_b01 :: filesystem where
  \<comment> \<open>\<open>fs_ab\<close> after the directory of \<open>doc_a\<close> has been renamed to \<open>b_01\<close>\<close>
  "fs_b01 = \<lparr>cwd = [], table = [([''w''], Dir), ([''w'', ''b_01''], Dir), ([''w'', ''b''], Dir)]\<rparr>"

definition crowded :: filesystem where
  \<comment> \<open>the directories \<open>b\<close> and \<open>b_01\<close> to \<open>b_99\<close> are taken\<close>
  "crowded = \<lparr>cwd = [], table = map (\<lambda>l. (l, Dir))
     ([''w''] # [''w'', ''a''] # [''w'', ''b''] #
      map (\<lambda>j. [''w'', ''b_'' @ fmt02d (int j)]) [1..<100])\<rparr>"

definition work :: label where
  "work = \<lparr>name = ''Work'', color = ''#FF0000''\<rparr>"

definition tax :: label where
  "tax = \<lparr>name = ''Tax'', color = ''#00FF00''\<rparr>"

definition fs_tax :: filesystem where
  \<comment> \<open>the document \<open>doc_a\<close> with one label\<close>
  "fs_tax = \<lparr>cwd = [], table =
     [([''w''], Dir), ([''w'', ''a''], Dir), ([''w'', ''a'', ''labels''], File (label_line tax))]\<rparr>"

definition padded :: label where
  \<comment> \<open>a name that begins with a blank\<close>
  "padded = \<lparr>name = '' Work'', color = ''#FF0000''\<rparr>"


definition fs_bad :: filesystem where
  \<comment> \<open>a label file whose only line has no comma\<close>
  "fs_bad = \<lparr>cwd = [], table =
     [([''w''], Dir), ([''w'', ''a''], Dir), ([''w'', ''a'', ''labels''], File ''Work\<newline>'')]\<rparr>"

section \<open>Termination of the loop of \<open>set_docid\<close>\<close>

text \<open>
  The paths probed resolve to pairwise different places, since the digits at the end of
  the last name determine the counter, and the file system is finite: the loop finds a free
  path.
\<close>

lemma digit_val_digit_char: "k < 10 \<Longrightarrow> digit_val (digit_char k) = k"
  by (simp add: digit_val_def digit_char_def)

lemma digits_val_snoc: "digits_val (s @ [c]) = 10 * digits_val s + digit_val c"
  by (simp add: digits_val_def)

lemma digits_val_dec: "digits_val (dec n) = n"
proof (induction n rule: dec.induct)
  case (1 n)
  show ?case
  proof (cases "n < 10")
    case True
    then show ?thesis
      by (subst dec.simps) (simp add: digits_val_def digit_val_digit_char)
  next
    case False
    then have "digits_val (dec n) = 10 * digits_val (dec (n div 10)) + digit_val (digit_char (n mod 10))"
      by (subst dec.simps) (simp add: digits_val_snoc)
    with False 1 show ?thesis
      by (simp add: digit_val_digit_char)
  qed
qed

lemma digits_val_zero_cons: "digits_val (CHR ''0'' # s) = digits_val s"
  by (simp add: digits_val_def digit_val_def)

lemma digits_val_fmt02d: "digits_val (fmt02d (int n)) = n"
  by (simp add: fmt02d_def digits_val_zero_cons digits_val_dec)

lemma inj_fmt02d: "fmt02d (int i) = fmt02d (int j) \<Longrightarrow> i = j"
  by (metis digits_val_fmt02d)

lemma is_digit_digit_char: "k < 10 \<Longrightarrow> is_digit (digit_char k)"
  by (simp add: is_digit_def digit_char_def)

lemma dec_digits: "list_all is_digit (dec n)"
proof (induction n rule: dec.induct)
  case (1 n)
  then show ?case
    by (subst dec.simps) (simp add: is_digit_digit_char)
qed

lemma dec_not_Nil: "dec n \<noteq> []"
  by (subst dec.simps) simp

lemma fmt02d_digits: "0 \<le> n \<Longrightarrow> list_all is_digit (fmt02d n)"
  by (simp add: fmt02d_def dec_digits is_digit_def)

lemma length_fmt02d_ge: "2 \<le> length (fmt02d n)"
proof -
  have "1 \<le> length (dec k)" for k
    using dec_not_Nil [of k] by (cases "dec k") simp_all
  from this [of "nat n"] this [of "nat (- n)"] show ?thesis
    by (simp add: fmt02d_def)
qed

lemma slash_not_digit: "\<not> is_digit CHR ''/''"
  by (simp add: is_digit_def)

lemma fmt02d_no_slash: "CHR ''/'' \<notin> set (fmt02d (int j))"
  using fmt02d_digits [of "int j"] slash_not_digit by (auto simp: list_all_iff)

lemma split_on_not_Nil: "split_on sep s \<noteq> []"
  by (induction s) (auto simp: Let_def)

lemma split_on_append_no_sep:
  "sep \<notin> set b \<Longrightarrow>
   split_on sep (a @ b) = butlast (split_on sep a) @ [last (split_on sep a) @ b]"
proof (induction a)
  case Nil
  then show ?case by (induction b) auto
next
  case (Cons c a)
  then show ?case
    using split_on_not_Nil [of sep a]
    by (cases "split_on sep a") (auto simp: Let_def)
qed

lemma walk_append:
  "walk fs cur (xs @ ys) = (case walk fs cur xs of None \<Rightarrow> None | Some c \<Rightarrow> walk fs c ys)"
  by (induction xs arbitrary: cur) auto

lemma walk_name:
  "c \<noteq> [] \<Longrightarrow> c \<noteq> ''.'' \<Longrightarrow> c \<noteq> ''..'' \<Longrightarrow>
   walk fs cur [c] = (if is_dir fs cur then Some (cur @ [c]) else None)"
  by simp

lemma candidate_form:
  "\<exists>P. P \<noteq> [] \<and> last P = CHR ''_'' \<and> (\<forall>j. candidate w b j = P @ fmt02d (int j))"
proof (cases "b \<noteq> [] \<and> hd b = CHR ''/''")
  case True
  then have "\<forall>j. candidate w b j = (b @ ''_'') @ fmt02d (int j)"
    by (simp add: candidate_def path_join_def)
  then show ?thesis by (intro exI [of _ "b @ ''_''"]) simp
next
  case False
  then have nohd: "\<And>f. \<not> (b @ ''_'' @ f \<noteq> [] \<and> hd (b @ ''_'' @ f) = CHR ''/'')"
    by (cases b) auto
  show ?thesis
  proof (cases "w = [] \<or> last w = CHR ''/''")
    case True
    with nohd have "\<forall>j. candidate w b j = (w @ b @ ''_'') @ fmt02d (int j)"
      by (simp add: candidate_def path_join_def)
    then show ?thesis by (intro exI [of _ "w @ b @ ''_''"]) simp
  next
    case False
    with nohd have "\<forall>j. candidate w b j = (w @ ''/'' @ b @ ''_'') @ fmt02d (int j)"
      by (simp add: candidate_def path_join_def)
    then show ?thesis by (intro exI [of _ "w @ ''/'' @ b @ ''_''"]) simp
  qed
qed

text \<open>A path that ends in an underscore and digits resolves to a place whose last name
  ends in these digits; the rest of the place does not depend on them.\<close>

lemma resolve_digits:
  assumes "P \<noteq> []" and "last P = CHR ''_''" and "CHR ''/'' \<notin> set f" and "f \<noteq> []"
  shows "resolve fs (P @ f) =
     (case walk fs (if hd P = CHR ''/'' then [] else cwd fs) (butlast (split_on CHR ''/'' P)) of
        None \<Rightarrow> None
      | Some cur \<Rightarrow> if is_dir fs cur then Some (cur @ [last (split_on CHR ''/'' P) @ f]) else None)"
proof -
  let ?c0 = "last (split_on CHR ''/'' P)"
  from assms(1,2) obtain P' where P: "P = P' @ ''_''"
    by (metis append_butlast_last_id)
  have "split_on CHR ''/'' (P' @ ''_'') =
      butlast (split_on CHR ''/'' P') @ [last (split_on CHR ''/'' P') @ ''_'']"
    by (rule split_on_append_no_sep) simp
  then have c0: "?c0 = last (split_on CHR ''/'' P') @ ''_''"
    by (simp add: P)
  then have "length (?c0 @ f) \<ge> 2"
    using assms(4) by (cases f) auto
  moreover have "last (?c0 @ f) = last f"
    using assms(4) by simp
  ultimately have name: "?c0 @ f \<noteq> []" "?c0 @ f \<noteq> ''.''" "?c0 @ f \<noteq> ''..''"
    using c0 assms(4) by (auto simp: append_eq_Cons_conv)
  have "split_on CHR ''/'' (P @ f) = butlast (split_on CHR ''/'' P) @ [?c0 @ f]"
    by (rule split_on_append_no_sep [OF assms(3)])
  then have sp: "split_on CHR ''/'' (P @ f) = butlast (split_on CHR ''/'' P) @ [?c0 @ f]" .
  have w1: "walk fs cur [?c0 @ f] = (if is_dir fs cur then Some (cur @ [?c0 @ f]) else None)"
    for cur
    by (rule walk_name [OF name])
  have ne: "P @ f \<noteq> []" and h: "hd (P @ f) = hd P"
    using assms(1) by simp_all
  let ?start = "if hd P = CHR ''/'' then [] else cwd fs"
  have "resolve fs (P @ f) = walk fs ?start (split_on CHR ''/'' (P @ f))"
    by (simp only: resolve_def ne h if_False)
  also have "\<dots> = (case walk fs ?start (butlast (split_on CHR ''/'' P)) of
        None \<Rightarrow> None | Some c \<Rightarrow> walk fs c [?c0 @ f])"
    by (simp only: sp walk_append)
  finally show ?thesis
    by (simp only: w1)
qed

lemma finite_candidates: "finite {j. path_exists fs (candidate w b j)}"
proof -
  obtain P where P: "P \<noteq> []" "last P = CHR ''_''" "\<forall>j. candidate w b j = P @ fmt02d (int j)"
    using candidate_form by blast
  let ?c0 = "last (split_on CHR ''/'' P)"
  have nonempty: "fmt02d (int j) \<noteq> []" for j
    using length_fmt02d_ge [of "int j"] by auto
  note res = resolve_digits [OF P(1,2) fmt02d_no_slash nonempty]
  show ?thesis
  proof (cases "walk fs (if hd P = CHR ''/'' then [] else cwd fs) (butlast (split_on CHR ''/'' P))")
    case None
    then have "{j. path_exists fs (candidate w b j)} = {}"
      by (simp add: path_exists_def node_at_def P(3) res)
    then show ?thesis by simp
  next
    case (Some cur)
    let ?h = "\<lambda>j. cur @ [?c0 @ fmt02d (int j)]"
    have "j \<in> ?h -` (fst ` set (table fs))" if "path_exists fs (candidate w b j)" for j
    proof -
      from that Some have "entry fs (?h j) \<noteq> None"
        by (auto simp: path_exists_def node_at_def P(3) res split: if_splits)
      then have "map_of (table fs) (?h j) \<noteq> None"
        by (simp add: entry_def)
      then have "?h j \<in> fst ` set (table fs)"
        by (simp add: map_of_eq_None_iff)
      then show ?thesis by simp
    qed
    then have "{j. path_exists fs (candidate w b j)} \<subseteq> ?h -` (fst ` set (table fs))"
      by blast
    moreover have "inj ?h"
      by (rule injI) (auto dest: inj_fmt02d)
    ultimately show ?thesis
      by (meson finite_imageI finite_set finite_subset finite_vimageI)
  qed
qed

termination docid_loop
proof (relation "measure (\<lambda>(fs, workdir, base, idx, new_docid, new_docpath).
          2 * card {j. idx < j \<and> path_exists fs (candidate workdir base j)}
          + (if path_exists fs new_docpath then 1 else 0))")
  show "wf (measure (\<lambda>(fs, workdir, base, idx, new_docid, new_docpath).
          2 * card {j. idx < j \<and> path_exists fs (candidate workdir base j)}
          + (if path_exists fs new_docpath then 1 else 0)))"
    by simp
next
  fix fs :: filesystem and workdir new_base_docid :: string and idx :: nat
    and new_docid new_docpath :: string
  assume ex: "path_exists fs new_docpath"
  let ?E = "\<lambda>j. path_exists fs (candidate workdir new_base_docid j)"
  let ?S = "{j. idx < j \<and> ?E j}" and ?S' = "{j. idx + 1 < j \<and> ?E j}"
  have fin: "finite ?S'"
    by (rule finite_subset [OF _ finite_candidates [of fs workdir new_base_docid]]) auto
  have "2 * card ?S' + (if ?E (idx + 1) then 1 else 0) < 2 * card ?S + 1"
  proof (cases "?E (idx + 1)")
    case True
    then have "?S = insert (idx + 1) ?S'" by (auto simp: less_Suc_eq Suc_lessI)
    then have "card ?S = Suc (card ?S')" using fin by simp
    with True show ?thesis by simp
  next
    case False
    then have "?S = ?S'"
      by (auto simp: Suc_lessI) (metis Suc_lessI)
    with False show ?thesis by simp
  qed
  then show "((fs, workdir, new_base_docid, idx + 1,
               new_base_docid @ ''_'' @ fmt02d (int (idx + 1)),
               path_join workdir (new_base_docid @ ''_'' @ fmt02d (int (idx + 1)))),
              (fs, workdir, new_base_docid, idx, new_docid, new_docpath))
           \<in> measure (\<lambda>(fs, workdir, base, idx, new_docid, new_docpath).
          2 * card {j. idx < j \<and> path_exists fs (candidate workdir base j)}
          + (if path_exists fs new_docpath then 1 else 0))"
    using ex by (simp add: candidate_def)
qed

declare docid_loop.simps [simp del]

section \<open>Properties\<close>

subsection \<open>Decimal numbers\<close>

lemma length_dec_1: "n < 10 \<Longrightarrow> length (dec n) = 1"
  by (subst dec.simps) simp

lemma length_dec_2: "10 \<le> n \<Longrightarrow> n < 100 \<Longrightarrow> length (dec n) = 2"
  by (subst dec.simps) (simp add: length_dec_1)

lemma length_dec_3: "100 \<le> n \<Longrightarrow> n < 1000 \<Longrightarrow> length (dec n) = 3"
  by (subst dec.simps) (simp add: length_dec_2)

lemma length_dec_4: "1000 \<le> n \<Longrightarrow> n < 10000 \<Longrightarrow> length (dec n) = 4"
  by (subst dec.simps) (simp add: length_dec_3)

lemma length_fmt02d_2: "0 \<le> n \<Longrightarrow> n \<le> 99 \<Longrightarrow> length (fmt02d n) = 2"
  by (cases "nat n < 10") (simp_all add: fmt02d_def length_dec_1 length_dec_2)

lemma length_fmt02d_4: "1000 \<le> n \<Longrightarrow> n \<le> 9999 \<Longrightarrow> length (fmt02d n) = 4"
  by (simp add: fmt02d_def length_dec_4)

subsection \<open>Splitting a string\<close>

lemma split_on_notin: "sep \<notin> set s \<Longrightarrow> split_on sep s = [s]"
  by (induction s) auto

lemma split_on_append: "sep \<notin> set a \<Longrightarrow> split_on sep (a @ sep # b) = a # split_on sep b"
  by (induction a) auto

lemma length_split_on: "length (split_on sep s) = Suc (count_list s sep)"
  using split_on_not_Nil [of sep]
  by (induction s) (auto simp: Let_def)

subsection \<open>Writing to the file system\<close>

lemma entry_put: "l \<noteq> [] \<Longrightarrow> entry (put l n fs) k = (if k = l then Some n else entry fs k)"
  by (simp add: entry_def put_def update_conv')

lemma entry_delete:
  "l \<noteq> [] \<Longrightarrow>
   entry (fs\<lparr>table := AList.delete l (table fs)\<rparr>) k = (if k = l then None else entry fs k)"
  by (simp add: entry_def delete_conv')

lemma walk_cong:
  "(\<And>k. is_dir fs' k = is_dir fs k) \<Longrightarrow> walk fs' cur cs = walk fs cur cs"
  by (induction cs arbitrary: cur) auto

lemma resolve_cong:
  "(\<And>k. is_dir fs' k = is_dir fs k) \<Longrightarrow> cwd fs' = cwd fs \<Longrightarrow> resolve fs' p = resolve fs p"
  using walk_cong [of fs' fs] by (simp add: resolve_def)

lemma not_dir_not_root: "\<not> is_dir fs l \<Longrightarrow> l \<noteq> []"
  by (auto simp: is_dir_def entry_def)

lemma resolve_put_file:
  assumes "\<not> is_dir fs l"
  shows "resolve (put l (File t) fs) p = resolve fs p"
proof (rule resolve_cong)
  show "is_dir (put l (File t) fs) k = is_dir fs k" for k
    using assms not_dir_not_root [OF assms] by (auto simp: is_dir_def entry_put)
  show "cwd (put l (File t) fs) = cwd fs"
    by (simp add: put_def)
qed

lemma resolve_delete:
  assumes "\<not> is_dir fs l"
  shows "resolve (fs\<lparr>table := AList.delete l (table fs)\<rparr>) p = resolve fs p"
proof (rule resolve_cong)
  show "is_dir (fs\<lparr>table := AList.delete l (table fs)\<rparr>) k = is_dir fs k" for k
    using assms not_dir_not_root [OF assms] by (auto simp: is_dir_def entry_delete)
  show "cwd (fs\<lparr>table := AList.delete l (table fs)\<rparr>) = cwd fs"
    by simp
qed

lemma node_at_put_file:
  assumes "resolve fs p = Some l" and "\<not> is_dir fs l"
  shows "node_at (put l (File t) fs) p = Some (File t)"
  using assms not_dir_not_root [OF assms(2)]
  by (simp add: node_at_def resolve_put_file entry_put)

lemma node_at_delete:
  assumes "resolve fs p = Some l" and "\<not> is_dir fs l"
  shows "node_at (fs\<lparr>table := AList.delete l (table fs)\<rparr>) p = None"
  using assms not_dir_not_root [OF assms(2)]
  by (simp add: node_at_def resolve_delete entry_delete)

text \<open>What the three ways to open a file leave behind.\<close>

lemma open_append_result:
  assumes "open_append p text fs = Inr fs'"
  shows "node_at fs' p =
           Some (File ((case node_at fs p of Some (File old) \<Rightarrow> old | _ \<Rightarrow> []) @ text)) \<and>
         (\<forall>q. resolve fs' q = resolve fs q)"
proof -
  from assms obtain l where l: "resolve fs p = Some l"
    by (auto simp: open_append_def split: option.splits)
  show ?thesis
  proof (cases "entry fs l")
    case None
    then have nd: "\<not> is_dir fs l" by (simp add: is_dir_def)
    from assms l None have "fs' = put l (File text) fs"
      by (auto simp: open_append_def split: if_splits)
    with l None nd show ?thesis
      by (simp add: node_at_put_file resolve_put_file) (simp add: node_at_def)
  next
    case (Some n)
    with assms l obtain old where n: "n = File old"
      by (cases n) (auto simp: open_append_def)
    with Some have nd: "\<not> is_dir fs l" by (simp add: is_dir_def)
    from assms l Some n have "fs' = put l (File (old @ text)) fs"
      by (auto simp: open_append_def)
    with l Some n nd show ?thesis
      by (simp add: node_at_put_file resolve_put_file) (simp add: node_at_def)
  qed
qed

lemma open_write_result:
  assumes "open_write p text fs = Inr fs'"
  shows "node_at fs' p = Some (File text)"
proof -
  from assms obtain l where l: "resolve fs p = Some l"
    by (auto simp: open_write_def split: option.splits)
  from assms l have "\<not> is_dir fs l" and "fs' = put l (File text) fs"
    by (auto simp: open_write_def is_dir_def split: option.splits node.splits if_splits)
  with l show ?thesis
    by (simp add: node_at_put_file)
qed

lemma os_unlink_result:
  assumes "os_unlink p fs = Inr fs'"
  shows "node_at fs' p = None"
proof -
  from assms obtain l where l: "resolve fs p = Some l"
    by (auto simp: os_unlink_def split: option.splits)
  from assms l have "\<not> is_dir fs l" and "fs' = fs\<lparr>table := AList.delete l (table fs)\<rparr>"
    by (auto simp: os_unlink_def is_dir_def split: option.splits node.splits)
  with l show ?thesis
    by (simp add: node_at_delete)
qed

text \<open>What a rename leaves behind: the entries at and below the source are at and below the
  destination, where nothing was, and every other entry is as before.\<close>

lemma map_of_moved:
  assumes "\<forall>(l, m)\<in>set xs. \<not> prefix t l" and "\<not> prefix s t" and "\<not> prefix t s"
  shows "map_of (map (\<lambda>(l, m). (move s t l, m)) xs) k =
     (if prefix t k then map_of xs (s @ drop (length t) k)
      else if prefix s k then None else map_of xs k)"
  using assms(1)
proof (induction xs)
  case Nil
  then show ?case by simp
next
  case (Cons e xs)
  obtain l m where e: "e = (l, m)" by (cases e)
  with Cons.prems have l: "\<not> prefix t l" by simp
  have hit: "move s t l = k \<longleftrightarrow>
      (if prefix t k then l = s @ drop (length t) k else \<not> prefix s k \<and> l = k)"
  proof (cases "prefix s l")
    case True
    then obtain r where r: "l = s @ r" by (auto simp: prefix_def)
    then have "move s t l = t @ r" by (simp add: move_def)
    with r show ?thesis by (auto simp: prefix_def)
  next
    case False
    then have "move s t l = l" by (simp add: move_def)
    with False l show ?thesis by (auto simp: prefix_def)
  qed
  from Cons have IH: "map_of (map (\<lambda>(l, m). (move s t l, m)) xs) k =
     (if prefix t k then map_of xs (s @ drop (length t) k)
      else if prefix s k then None else map_of xs k)"
    by simp
  show ?case
  proof (cases "move s t l = k")
    case True
    with hit have "if prefix t k then l = s @ drop (length t) k else \<not> prefix s k \<and> l = k"
      by simp
    with True show ?thesis
      by (simp add: e split: if_splits)
  next
    case False
    with hit have "if prefix t k then l \<noteq> s @ drop (length t) k else prefix s k \<or> l \<noteq> k"
      by (cases "prefix t k") auto
    with False show ?thesis
      by (auto simp: e IH split: if_splits)
  qed
qed

lemma os_rename_result:
  assumes "os_rename src dst fs = Inr fs'"
  shows "\<exists>s t. resolve fs src = Some s \<and> entry fs s \<noteq> None \<and>
           resolve fs (if is_dir fs s then strip_slashes dst else dst) = Some t \<and>
           (\<forall>k. prefix t k \<longrightarrow> entry fs k = None) \<and>
           cwd fs' = move s t (cwd fs) \<and>
           (\<forall>k. entry fs' k =
              (if prefix t k then entry fs (s @ drop (length t) k)
               else if prefix s k then None else entry fs k))"
proof -
  from assms obtain s n where s: "resolve fs src = Some s" "entry fs s = Some n" "s \<noteq> []"
    by (auto simp: os_rename_def split: if_splits option.splits)
  let ?dst = "if n = Dir then strip_slashes dst else dst"
  from assms s obtain t where t: "resolve fs ?dst = Some t" "t \<noteq> []"
    "\<not> list_ex (\<lambda>(l, m). prefix t l) (table fs)" "\<not> prefix s t"
    and fs': "fs' = \<lparr>cwd = move s t (cwd fs), table = map (\<lambda>(l, m). (move s t l, m)) (table fs)\<rparr>"
    by (auto simp: os_rename_def split: if_splits option.splits)
  have free: "\<forall>(l, m)\<in>set (table fs). \<not> prefix t l"
    using t(3) by (auto simp: list_ex_iff)
  have none: "entry fs k = None" if "prefix t k" for k
  proof (cases "map_of (table fs) k")
    case None
    with that t(2) show ?thesis by (auto simp: entry_def)
  next
    case (Some m)
    then have "(k, m) \<in> set (table fs)" by (rule map_of_SomeD)
    with free that show ?thesis by auto
  qed
  have "\<not> prefix t s"
    using none [of s] s(2) by auto
  note moved = map_of_moved [OF free t(4) this]
  have "entry fs' k =
      (if prefix t k then entry fs (s @ drop (length t) k)
       else if prefix s k then None else entry fs k)" for k
  proof (cases "k = []")
    case True
    with s(3) t(2) show ?thesis by (simp add: entry_def)
  next
    case False
    with s(3) show ?thesis
      by (simp add: entry_def fs' moved)
  qed
  moreover have "(if is_dir fs s then strip_slashes dst else dst) = ?dst"
    using s(2) by (simp add: is_dir_def)
  moreover have "cwd fs' = move s t (cwd fs)"
    by (simp add: fs')
  ultimately show ?thesis
    using s t(1) none by auto
qed

subsection \<open>What the loop of \<open>set_docid\<close> returns\<close>

lemma docid_loop_spec:
  "docid_loop fs w b idx nid np = (nid', np') \<Longrightarrow>
   (if path_exists fs np
    then (\<exists>k>idx. nid' = b @ ''_'' @ fmt02d (int k) \<and> np' = candidate w b k \<and>
            \<not> path_exists fs np' \<and>
            (\<forall>j. idx < j \<and> j < k \<longrightarrow> path_exists fs (candidate w b j)))
    else nid' = nid \<and> np' = np)"
proof (induction fs w b idx nid np rule: docid_loop.induct)
  case (1 fs w b idx nid np)
  show ?case
  proof (cases "path_exists fs np")
    case False
    with "1.prems" show ?thesis by (simp add: docid_loop.simps)
  next
    case True
    let ?nid = "b @ ''_'' @ fmt02d (int (idx + 1))"
    let ?np = "path_join w ?nid"
    from True "1.prems" have run: "docid_loop fs w b (idx + 1) ?nid ?np = (nid', np')"
      by (simp add: docid_loop.simps)
    note IH = "1.IH" [OF True run]
    show ?thesis
    proof (cases "path_exists fs ?np")
      case False
      with IH have "nid' = ?nid" "np' = ?np" by simp_all
      with False True show ?thesis
        by (auto simp: candidate_def intro!: exI [of _ "idx + 1"])
    next
      case ex: True
      with IH obtain k where k: "idx + 1 < k" "nid' = b @ ''_'' @ fmt02d (int k)"
        "np' = candidate w b k" "\<not> path_exists fs np'"
        "\<forall>j. idx + 1 < j \<and> j < k \<longrightarrow> path_exists fs (candidate w b j)"
        by auto
      have "path_exists fs (candidate w b j)" if "idx < j" "j < k" for j
      proof (cases "j = idx + 1")
        case True
        with ex show ?thesis by (simp add: candidate_def)
      next
        case False
        with that k(5) show ?thesis by simp
      qed
      with k True show ?thesis
        by (intro iffD2 [OF if_P, OF True] exI [of _ k]) auto
    qed
  qed
qed

lemma docid_loop_skip:
  assumes "path_exists fs np" and "idx < k"
    and "\<forall>j. idx < j \<and> j < k \<longrightarrow> path_exists fs (candidate w b j)"
    and "\<not> path_exists fs (candidate w b k)"
  shows "docid_loop fs w b idx nid np = (b @ ''_'' @ fmt02d (int k), candidate w b k)"
proof -
  obtain nid' np' where run: "docid_loop fs w b idx nid np = (nid', np')"
    by (cases "docid_loop fs w b idx nid np")
  from docid_loop_spec [OF run] assms(1) obtain k' where k': "idx < k'"
    "nid' = b @ ''_'' @ fmt02d (int k')" "np' = candidate w b k'" "\<not> path_exists fs np'"
    "\<forall>j. idx < j \<and> j < k' \<longrightarrow> path_exists fs (candidate w b j)"
    by auto
  have "k' = k"
  proof (rule ccontr)
    assume "k' \<noteq> k"
    then consider "k' < k" | "k < k'" by linarith
    then show False
    proof cases
      case 1
      with assms(3) k'(1) have "path_exists fs (candidate w b k')" by simp
      with k'(3,4) show False by simp
    next
      case 2
      with k'(5) assms(2) have "path_exists fs (candidate w b k)" by simp
      with assms(4) show False by simp
    qed
  qed
  with run k' show ?thesis by simp
qed

subsection \<open>The id after a collision\<close>

lemma map_of_dirs:
  "map_of (map (\<lambda>l. (l, Dir)) ls) k = (if k \<in> set ls then Some Dir else None)"
  by (induction ls) auto

lemma entry_crowded:
  "entry crowded k =
     (if k = [] \<or> k = [''w''] \<or> k = [''w'', ''a''] \<or> k = [''w'', ''b''] \<or>
         (\<exists>j. 1 \<le> j \<and> j < 100 \<and> k = [''w'', ''b_'' @ fmt02d (int j)])
      then Some Dir else None)"
proof -
  define ls where "ls = [''w''] # [''w'', ''a''] # [''w'', ''b''] #
      map (\<lambda>j. [''w'', ''b_'' @ fmt02d (int j)]) [1..<100]"
  have "table crowded = map (\<lambda>l. (l, Dir)) ls"
    by (simp add: crowded_def ls_def)
  then have "entry crowded k = (if k = [] then Some Dir else if k \<in> set ls then Some Dir else None)"
    by (simp only: entry_def map_of_dirs)
  moreover have "k \<in> set ls \<longleftrightarrow> k = [''w''] \<or> k = [''w'', ''a''] \<or> k = [''w'', ''b''] \<or>
         (\<exists>j. 1 \<le> j \<and> j < 100 \<and> k = [''w'', ''b_'' @ fmt02d (int j)])"
    by (auto simp: ls_def)
  ultimately show ?thesis by auto
qed

lemma candidate_w_b: "candidate ''/w'' ''b'' j = ''/w/b_'' @ fmt02d (int j)"
  by (simp add: candidate_def path_join_def)

lemma fmt02d_100: "fmt02d 100 = ''100''"
  by code_simp

lemma resolve_crowded:
  "resolve crowded (candidate ''/w'' ''b'' j) = Some [''w'', ''b_'' @ fmt02d (int j)]"
proof -
  have f: "CHR ''/'' \<notin> set (fmt02d (int j))" "fmt02d (int j) \<noteq> []"
    using fmt02d_no_slash [of j] length_fmt02d_ge [of "int j"] by auto
  have sp: "split_on CHR ''/'' ''/w/b_'' = ['''', ''w'', ''b_'']"
    by code_simp
  have w: "is_dir crowded []" "is_dir crowded [''w'']"
    by (simp_all add: is_dir_def entry_crowded)
  have "resolve crowded (''/w/b_'' @ fmt02d (int j)) = Some [''w'', ''b_'' @ fmt02d (int j)]"
    using resolve_digits [of "''/w/b_''" "fmt02d (int j)" crowded] f
    by (simp add: sp w)
  then show ?thesis
    by (simp only: candidate_w_b)
qed

lemma path_exists_crowded:
  "path_exists crowded (candidate ''/w'' ''b'' j) \<longleftrightarrow> 1 \<le> j \<and> j < 100"
proof -
  have "(\<exists>i. 1 \<le> i \<and> i < 100 \<and> fmt02d (int j) = fmt02d (int i)) \<longleftrightarrow> 1 \<le> j \<and> j < 100"
    using inj_fmt02d [of j] by auto
  then show ?thesis
    by (simp add: path_exists_def node_at_def resolve_crowded entry_crowded)
qed

lemma os_rename_crowded: "\<exists>fs'. os_rename ''/w/a'' ''/w/b_100'' crowded = Inr fs'"
proof -
  have names: "last_name ''/w/a'' = ''a''" "last_name ''/w/b_100'' = ''b_100''"
    "strip_slashes ''/w/b_100'' = ''/w/b_100''"
    by code_simp+
  have w: "is_dir crowded []" "is_dir crowded [''w'']"
    by (simp_all add: is_dir_def entry_crowded)
  have sp: "split_on CHR ''/'' ''/w/a'' = ['''', ''w'', ''a'']"
    by code_simp
  have src: "resolve crowded ''/w/a'' = Some [''w'', ''a'']"
    by (simp add: resolve_def sp w)
  have dst: "resolve crowded ''/w/b_100'' = Some [''w'', ''b_100'']"
    using resolve_crowded [of 100] by (simp add: candidate_w_b fmt02d_100)
  have a: "entry crowded [''w'', ''a''] = Some Dir"
    by (simp add: entry_crowded)
  have "\<not> prefix [''w'', ''b_100''] l" if "(l, m) \<in> set (table crowded)" for l m
  proof
    assume p: "prefix [''w'', ''b_100''] l"
    from that have "l \<in> fst ` set (table crowded)"
      by force
    then have "map_of (table crowded) l \<noteq> None"
      by (simp add: map_of_eq_None_iff)
    then have "entry crowded l \<noteq> None"
      by (simp add: entry_def)
    with p obtain j where "1 \<le> j" "j < 100" "''b_100'' = ''b_'' @ fmt02d (int j)"
      by (auto simp: entry_crowded split: if_splits)
    then have "fmt02d (int j) = fmt02d (int 100)" "j \<noteq> 100"
      by (simp_all add: fmt02d_100)
    with inj_fmt02d [of j 100] show False by simp
  qed
  then have free: "\<not> list_ex (\<lambda>(l, m). prefix [''w'', ''b_100''] l) (table crowded)"
    by (auto simp: list_ex_iff)
  show ?thesis
    by (simp add: os_rename_def names src dst a free w)
qed

text \<open>
  C2, as amended: after every successful \<open>set_docid X\<close> the path is the join of the parent
  directory and the id, and nothing was at that path before the call. If the parent directory
  already had an entry \<open>X\<close>, the id is \<open>X\<close>, an underscore and a counter \<open>k \<ge> 1\<close> written
  in decimal digits, at least two of them, where every smaller counter from 1 on names a
  path that was taken; otherwise the id is \<open>X\<close> itself. No existing entry is overwritten:
  either path and file system are as before, or the old path led to a place \<open>s\<close> and the new
  path to a place \<open>t\<close> at and below which there was nothing; afterwards the entries that were
  at and below \<open>s\<close> are at and below \<open>t\<close>, nothing is at \<open>s\<close>, and every other place has
  the entry that it had. Whether a path is taken is asked of the file system, which resolves
  the path name by name.
\<close>

theorem set_docid_collision:
  assumes "set_docid X (d, fs) = (Inr (), d', fs')"
  shows "path d' = path_join (path_dirname (path d)) (docid d') \<and>
         \<not> path_exists fs (path d') \<and>
         (if path_exists fs (path_join (path_dirname (path d)) X)
          then \<exists>k\<ge>1. docid d' = X @ ''_'' @ fmt02d (int k) \<and>
                 2 \<le> length (fmt02d (int k)) \<and> list_all is_digit (fmt02d (int k)) \<and>
                 digits_val (fmt02d (int k)) = k \<and>
                 (\<forall>j. 1 \<le> j \<and> j < k \<longrightarrow>
                    path_exists fs (path_join (path_dirname (path d)) (X @ ''_'' @ fmt02d (int j))))
          else docid d' = X) \<and>
         (if path d' = path d then fs' = fs
          else \<exists>s t. resolve fs (path d) = Some s \<and> entry fs s \<noteq> None \<and>
                 resolve fs (if is_dir fs s then strip_slashes (path d') else path d') = Some t \<and>
                 (\<forall>l. prefix t l \<longrightarrow> entry fs l = None) \<and>
                 cwd fs' = move s t (cwd fs) \<and>
                 (\<forall>l. entry fs' l =
                    (if prefix t l then entry fs (s @ drop (length t) l)
                     else if prefix s l then None else entry fs l)))"
proof -
  let ?w = "path_dirname (path d)"
  obtain nid np where loop: "docid_loop fs ?w X 0 X (path_join ?w X) = (nid, np)"
    by (cases "docid_loop fs ?w X 0 X (path_join ?w X)")
  note spec = docid_loop_spec [OF loop]
  have free: "\<not> path_exists fs np" and np: "np = path_join ?w nid"
    using spec by (auto simp: candidate_def split: if_splits)
  from assms loop have d': "docid d' = nid" "path d' = np"
    by (auto simp: set_docid_def Let_def split: if_splits sum.splits)
  have "\<exists>k\<ge>1. docid d' = X @ ''_'' @ fmt02d (int k) \<and>
              2 \<le> length (fmt02d (int k)) \<and> list_all is_digit (fmt02d (int k)) \<and>
              digits_val (fmt02d (int k)) = k \<and>
              (\<forall>j. 1 \<le> j \<and> j < k \<longrightarrow> path_exists fs (candidate ?w X j))"
    if "path_exists fs (path_join ?w X)"
  proof -
    from spec that obtain k where "k > 0" "nid = X @ ''_'' @ fmt02d (int k)"
      "\<forall>j. 0 < j \<and> j < k \<longrightarrow> path_exists fs (candidate ?w X j)"
      by auto
    then show ?thesis using d'
      by (intro exI [of _ k]) (auto simp: length_fmt02d_ge fmt02d_digits digits_val_fmt02d)
  qed
  moreover have "docid d' = X" if "\<not> path_exists fs (path_join ?w X)"
    using spec that d' by simp
  moreover have "fs' = fs" if "path d' = path d"
    using assms loop that d' by (auto simp: set_docid_def Let_def split: if_splits sum.splits)
  moreover have "\<exists>s t. resolve fs (path d) = Some s \<and> entry fs s \<noteq> None \<and>
         resolve fs (if is_dir fs s then strip_slashes (path d') else path d') = Some t \<and>
         (\<forall>l. prefix t l \<longrightarrow> entry fs l = None) \<and>
         cwd fs' = move s t (cwd fs) \<and>
         (\<forall>l. entry fs' l =
            (if prefix t l then entry fs (s @ drop (length t) l)
             else if prefix s l then None else entry fs l))"
    if "path d' \<noteq> path d"
  proof -
    from assms loop that d' have "os_rename (path d) np fs = Inr fs'"
      by (auto simp: set_docid_def Let_def split: if_splits sum.splits)
    from os_rename_result [OF this] show ?thesis
      by (simp only: d')
  qed
  ultimately show ?thesis
    using d' np free by (simp add: candidate_def)
qed

theorem set_docid_collision_witness:
  "set_docid ''b'' (doc_a, fs_ab) = (Inr (), doc_b01, fs_b01) \<and>
   path_exists fs_ab (path_join (path_dirname (path doc_a)) ''b'') \<and>
   path doc_b01 \<noteq> path doc_a \<and>
   path doc_b01 = path_join (path_dirname (path doc_a)) (docid doc_b01) \<and>
   \<not> path_exists fs_ab (path doc_b01) \<and>
   (\<exists>k\<ge>1. docid doc_b01 = ''b'' @ ''_'' @ fmt02d (int k) \<and>
      2 \<le> length (fmt02d (int k)) \<and> list_all is_digit (fmt02d (int k)) \<and>
      digits_val (fmt02d (int k)) = k \<and>
      (\<forall>j. 1 \<le> j \<and> j < k \<longrightarrow>
         path_exists fs_ab (path_join (path_dirname (path doc_a)) (''b'' @ ''_'' @ fmt02d (int j))))) \<and>
   (\<exists>s t. resolve fs_ab (path doc_a) = Some s \<and> entry fs_ab s \<noteq> None \<and>
      resolve fs_ab (if is_dir fs_ab s then strip_slashes (path doc_b01) else path doc_b01) = Some t \<and>
      (\<forall>l. prefix t l \<longrightarrow> entry fs_ab l = None) \<and>
      cwd fs_b01 = move s t (cwd fs_ab) \<and>
      (\<forall>l. entry fs_b01 l =
         (if prefix t l then entry fs_ab (s @ drop (length t) l)
          else if prefix s l then None else entry fs_ab l)))"
proof -
  have run: "set_docid ''b'' (doc_a, fs_ab) = (Inr (), doc_b01, fs_b01)"
    by code_simp
  have ex: "path_exists fs_ab (path_join (path_dirname (path doc_a)) ''b'')"
    by code_simp
  have ne: "path doc_b01 \<noteq> path doc_a"
    by code_simp
  note holds = set_docid_collision [OF run, unfolded if_P [OF ex] if_not_P [OF ne]]
  show ?thesis
    by (rule conjI [OF run conjI [OF ex conjI [OF ne holds]]])
qed

text \<open>
  C2 as stated asks for a suffix of two digits. With \<open>b\<close> and \<open>b_01\<close> to \<open>b_99\<close> taken the
  call succeeds with the id \<open>b_100\<close>.
\<close>

theorem three_digit_suffix:
  "path_exists crowded (path_join (path_dirname (path doc_a)) ''b'') \<and>
   fst (set_docid ''b'' (doc_a, crowded)) = Inr () \<and>
   docid (fst (snd (set_docid ''b'' (doc_a, crowded)))) = ''b_100''"
proof -
  have pa: "path doc_a = ''/w/a''"
    by (simp add: doc_a_def)
  have w: "path_dirname ''/w/a'' = ''/w''"
    by (simp add: path_dirname_def)
  have b: "path_join ''/w'' ''b'' = ''/w/b''"
    by (simp add: path_join_def)
  have dirs: "is_dir crowded []" "is_dir crowded [''w'']"
    by (simp_all add: is_dir_def entry_crowded)
  have sp: "split_on CHR ''/'' ''/w/b'' = ['''', ''w'', ''b'']"
    by code_simp
  have taken0: "path_exists crowded ''/w/b''"
    by (simp add: path_exists_def node_at_def resolve_def sp dirs entry_crowded)
  have loop: "docid_loop crowded ''/w'' ''b'' 0 ''b'' ''/w/b''
     = (''b'' @ ''_'' @ fmt02d (int 100), candidate ''/w'' ''b'' 100)"
    by (rule docid_loop_skip [OF taken0]) (simp_all add: path_exists_crowded)
  have c100: "candidate ''/w'' ''b'' 100 = ''/w/b_100''"
    by (simp add: candidate_w_b fmt02d_100)
  from os_rename_crowded obtain fs' where mv: "os_rename ''/w/a'' ''/w/b_100'' crowded = Inr fs'" ..
  have "set_docid ''b'' (doc_a, crowded) =
      (Inr (), doc_a\<lparr>docid := ''b_100'', path := ''/w/b_100''\<rparr>, fs')"
    by (simp add: set_docid_def pa w b loop c100 fmt02d_100 mv)
  with taken0 show ?thesis by (simp add: pa w b)
qed

text \<open>
  Whenever \<open>set_docid\<close> ends with an error, the path and the file system are as before and
  the id is already the one the loop has chosen.
\<close>

lemma set_docid_failure:
  assumes "set_docid X (d, fs) = (Inl e, d', fs')"
  shows "path d' = path d \<and> fs' = fs \<and>
         docid d' = fst (docid_loop fs (path_dirname (path d)) X 0 X
                           (path_join (path_dirname (path d)) X))"
  using assms
  by (auto simp: set_docid_def Let_def split: prod.splits if_splits sum.splits)

text \<open>
  C1: a rename that fails must leave id and path as they were. The document \<open>new_doc\<close> has
  no directory yet, so \<^verbatim>\<open>os.rename\<close> raises; the call ends with OSError, the id is already
  \<open>b\<close> and the path is still the old one.
\<close>

theorem set_docid_rename_fails:
  "set_docid ''b'' (new_doc, fs_w) = (Inl OSError, new_doc\<lparr>docid := ''b''\<rparr>, fs_w) \<and>
   docid (new_doc\<lparr>docid := ''b''\<rparr>) \<noteq> docid new_doc \<and>
   path (new_doc\<lparr>docid := ''b''\<rparr>) = path new_doc"
  by code_simp

subsection \<open>Dates\<close>




lemma digit_not_cspace: "is_digit c \<Longrightarrow> \<not> is_cspace c"
  by (auto simp: is_digit_def is_cspace_def)


lemma sign_not_digit: "\<not> is_digit CHR ''+''" "\<not> is_digit CHR ''-''"
  by (simp_all add: is_digit_def)



lemma dropWhile_stop: "ys = [] \<or> \<not> P (hd ys) \<Longrightarrow> dropWhile P ys = ys"
  by (cases ys) auto




lemma not_int_literal_Nil: "\<not> int_literal []"
  by (simp add: int_literal_def)





lemma py_int_digits:
  assumes "list_all is_digit s" and "s \<noteq> []"
  shows "py_int s = Inr (int (digits_val s))"
proof -
  from assms have d: "is_digit (hd s)" by (cases s) auto
  then have sign: "hd s \<noteq> CHR ''-''" "hd s \<noteq> CHR ''+''"
    using sign_not_digit by auto
  have t: "dropWhile is_cspace s = s"
    using d by (intro dropWhile_stop) (simp add: digit_not_cspace)
  have all: "takeWhile is_digit s = s" "dropWhile is_digit s = []"
    using assms(1) by (simp_all add: list_all_iff)
  show ?thesis
    using assms(2) sign by (simp add: py_int_def Let_def t all)
qed

lemma py_int_fmt02d:
  assumes "0 \<le> n"
  shows "py_int (fmt02d n) = Inr n"
proof -
  have "fmt02d n \<noteq> []"
    by (simp add: fmt02d_def dec_not_Nil)
  moreover have "digits_val (fmt02d n) = nat n"
    using digits_val_fmt02d [of "nat n"] assms by simp
  ultimately show ?thesis
    using assms by (simp add: py_int_digits fmt02d_digits)
qed

lemma date_of_canonical_docid:
  assumes "1000 \<le> y" "y \<le> 9999" "0 \<le> m" "m \<le> 99" "0 \<le> dd" "dd \<le> 99"
  shows "date_of_docid (fmt02d y @ fmt02d m @ fmt02d dd @ CHR ''_'' # rest) = Inr (y, m, dd)"
proof -
  let ?seg = "fmt02d y @ fmt02d m @ fmt02d dd"
  have "list_all is_digit ?seg"
    using assms by (simp add: fmt02d_digits)
  moreover have "\<not> is_digit CHR ''_''"
    by (simp add: is_digit_def)
  ultimately have "CHR ''_'' \<notin> set ?seg"
    unfolding list_all_iff by blast
  then have "leading_segment (?seg @ CHR ''_'' # rest) = ?seg"
    using split_on_append [of "CHR ''_''" ?seg rest] by (simp add: leading_segment_def)
  moreover have "slice 0 4 ?seg = fmt02d y" "slice 4 6 ?seg = fmt02d m" "slice 6 8 ?seg = fmt02d dd"
    using assms by (simp_all add: slice_def length_fmt02d_4 length_fmt02d_2)
  ultimately show ?thesis
    using assms by (simp add: date_of_docid_def py_int_fmt02d)
qed

lemma set_date_round_trip:
  assumes "1000 \<le> y" "y \<le> 9999" "0 \<le> m" "m \<le> 99" "0 \<le> dd" "dd \<le> 99"
    and "set_date (y, m, dd) (d, fs) = (Inr (), d', fs')"
  shows "get_date d' = Inr (y, m, dd)"
proof -
  let ?X = "fmt02d y @ fmt02d m @ fmt02d dd @ ''_0000_01''"
  let ?w = "path_dirname (path d)"
  obtain nid np where loop: "docid_loop fs ?w ?X 0 ?X (path_join ?w ?X) = (nid, np)"
    by (cases "docid_loop fs ?w ?X 0 ?X (path_join ?w ?X)")
  from docid_loop_spec [OF loop] obtain rest where "nid = ?X @ rest"
    by (cases "path_exists fs (path_join ?w ?X)") auto
  moreover from assms(7) loop have "docid d' = nid"
    by (auto simp: set_date_def set_docid_def Let_def split: if_splits sum.splits)
  ultimately have "docid d' = fmt02d y @ fmt02d m @ fmt02d dd @ CHR ''_'' # (''0000_01'' @ rest)"
    by simp
  then show ?thesis
    using date_of_canonical_docid [OF assms(1-6)] by (simp add: get_date_def)
qed

text \<open>
  C6: writing a date and reading it back should give the same date. The year is written with
  \<^verbatim>\<open>%02d\<close> like the month and the day, so the year 999 gives a leading segment of seven
  digits, and the date read back from the new id is (9990, 10, 1).
\<close>

theorem set_date_year_999:
  "set_date (999, 1, 1) (doc_a, fs_a) =
     (Inr (), doc_a\<lparr>docid := ''9990101_0000_01'', path := ''/w/9990101_0000_01''\<rparr>,
      \<lparr>cwd = [], table = [([''w''], Dir), ([''w'', ''9990101_0000_01''], Dir)]\<rparr>) \<and>
   get_date (doc_a\<lparr>docid := ''9990101_0000_01'', path := ''/w/9990101_0000_01''\<rparr>)
     = Inr (9990, 10, 1)"
  by code_simp

subsection \<open>Extra text\<close>

text \<open>
  When the side file is there, setting the extra text to blanks removes it and the text
  read afterwards is empty; a text that is not blank is read back stripped.
\<close>

lemma set_extra_text_blank:
  assumes "strip txt = []" and "node_at fs (extra_text_file d) = Some (File old)"
  shows "\<exists>fs'. set_extra_text txt (d, fs) = (Inr (), d, fs') \<and>
           node_at fs' (extra_text_file d) = None \<and>
           get_extra_text (d, fs') = (Inr [], d, fs')"
proof -
  from assms(2) obtain fs' where rm: "os_unlink (extra_text_file d) fs = Inr fs'"
    by (auto simp: os_unlink_def node_at_def split: option.splits)
  from os_unlink_result [OF rm] have "node_at fs' (extra_text_file d) = None" .
  with rm assms(1) show ?thesis
    by (simp add: set_extra_text_def get_extra_text_def os_access_def)
qed

lemma set_extra_text_written:
  assumes "strip txt \<noteq> []" and "set_extra_text txt (d, fs) = (Inr (), d', fs')"
  shows "get_extra_text (d', fs') = (Inr (strip txt), d', fs')"
proof -
  from assms have "open_write (extra_text_file d) (strip txt) fs = Inr fs'" and "d' = d"
    by (auto simp: set_extra_text_def Let_def split: sum.splits)
  with open_write_result [of "extra_text_file d" "strip txt" fs fs'] show ?thesis
    by (simp add: get_extra_text_def os_access_def open_read_def)
qed

text \<open>
  C5: setting the extra text to blanks must also succeed when there is no side file. The
  document \<open>doc_a\<close> has none in \<open>fs_a\<close>, and the call ends with the OSError of
  \<^verbatim>\<open>os.unlink\<close>.
\<close>

theorem set_extra_text_absent:
  "set_extra_text ''   '' (doc_a, fs_a) = (Inl OSError, doc_a, fs_a)"
  by code_simp

subsection \<open>The text of the label file\<close>

lemma splitlines_append:
  "splitlines cur (a @ CHR 0x0A # u) = splitlines cur (a @ [CHR 0x0A]) @ splitlines [] u"
proof (induction cur a rule: splitlines.induct)
  case (1 cur)
  show ?case by (simp add: is_linebreak_def)
next
  case (2 cur c cs)
  show ?case
  proof (cases cs)
    case Nil
    then show ?thesis by (simp add: is_linebreak_def)
  next
    case (Cons d ds)
    with 2 show ?thesis by simp
  qed
qed

lemma splitlines_clean:
  "\<forall>c\<in>set s. \<not> is_linebreak c \<Longrightarrow> splitlines cur (s @ [CHR 0x0A]) = [cur @ s @ [CHR 0x0A]]"
proof (induction s arbitrary: cur)
  case Nil
  show ?case by (simp add: is_linebreak_def)
next
  case (Cons c s)
  then have "\<not> is_linebreak c" by simp
  moreover from this have "c \<noteq> CHR 0x0D" by (auto simp: is_linebreak_def)
  ultimately show ?case using Cons by simp
qed

lemma count_list_dropWhile: "\<not> P x \<Longrightarrow> count_list (dropWhile P s) x = count_list s x"
  by (induction s) auto

lemma count_list_strip: "\<not> is_space x \<Longrightarrow> count_list (strip s) x = count_list s x"
  by (simp add: strip_def count_list_dropWhile)

lemma comma_not_space: "\<not> is_space CHR '',''"
  by (simp add: is_space_def)

lemma length_split_strip:
  "length (split_on CHR '','' (strip line)) = length (split_on CHR '','' line)"
  by (simp add: length_split_on count_list_strip comma_not_space)

lemma strip_label_line:
  assumes "clean_label l"
  shows "strip (label_line l) = name l @ CHR '','' # color l"
proof -
  let ?n = "name l" and ?c = "color l"
  have nl: "is_space (CHR 0x0A)" by (simp add: is_space_def)
  have front: "dropWhile is_space (?n @ CHR '','' # ?c @ [CHR 0x0A]) = ?n @ CHR '','' # ?c @ [CHR 0x0A]"
    using assms by (cases ?n) (auto simp: clean_label_def comma_not_space)
  have rear: "dropWhile is_space (rev ?c @ CHR '','' # rev ?n) = rev ?c @ CHR '','' # rev ?n"
    using assms by (cases ?c rule: rev_cases) (auto simp: clean_label_def comma_not_space)
  show ?thesis
    using front rear nl by (simp add: strip_def label_line_def get_color_str_def)
qed

lemma parse_lines_append:
  "parse_lines (xs @ ys) acc =
     (case parse_lines xs acc of Inl e \<Rightarrow> Inl e | Inr acc' \<Rightarrow> parse_lines ys acc')"
  by (induction xs arbitrary: acc) (auto split: list.splits)

lemma parse_label_line:
  assumes "clean_label l"
  shows "parse_lines [label_line l] acc = Inr (acc @ [l])"
proof -
  have "CHR '','' \<notin> set (name l)" "CHR '','' \<notin> set (color l)"
    using assms by (auto simp: clean_label_def list_all_iff)
  then have "split_on CHR '','' (name l @ CHR '','' # color l) = [name l, color l]"
    by (simp add: split_on_append split_on_notin)
  then show ?thesis
    by (simp add: strip_label_line [OF assms])
qed

lemma readlines_label_line:
  assumes "clean_label l"
  shows "readlines (label_line l) = [label_line l]"
proof -
  have "\<forall>c\<in>set (name l @ '','' @ color l). \<not> is_linebreak c"
    using assms by (auto simp: clean_label_def list_all_iff is_linebreak_def)
  from splitlines_clean [OF this, of "[]"] show ?thesis
    by (simp add: readlines_def label_line_def get_color_str_def)
qed

lemma readlines_append:
  assumes "text = [] \<or> last text = CHR 0x0A"
  shows "readlines (text @ u) = readlines text @ readlines u"
proof (cases "text = []")
  case True
  then show ?thesis by (simp add: readlines_def)
next
  case False
  with assms obtain a where "text = a @ [CHR 0x0A]"
    by (metis append_butlast_last_id)
  then show ?thesis
    using splitlines_append [of "[]" a u] by (simp add: readlines_def)
qed

lemma load_append:
  assumes "text = [] \<or> last text = CHR 0x0A"
    and "parse_lines (readlines text) [] = Inr ls" and "clean_label l"
  shows "parse_lines (readlines (text @ label_line l)) [] = Inr (ls @ [l])"
  using assms
  by (simp add: readlines_append readlines_label_line parse_lines_append parse_label_line
      del: parse_lines.simps)

lemma parse_lines_bad:
  "\<exists>line\<in>set lines. length (split_on CHR '','' line) \<noteq> 2 \<Longrightarrow>
   parse_lines lines acc = Inl ValueError"
proof (induction lines arbitrary: acc)
  case Nil
  then show ?case by simp
next
  case (Cons line rest)
  show ?case
  proof (cases "length (split_on CHR '','' line) = 2")
    case True
    then have "length (split_on CHR '','' (strip line)) = 2"
      by (simp add: length_split_strip)
    then obtain a b where "split_on CHR '','' (strip line) = [a, b]"
      by (auto simp: length_Suc_conv numeral_2_eq_2)
    moreover from True Cons.prems
    have "\<exists>line\<in>set rest. length (split_on CHR '','' line) \<noteq> 2" by auto
    ultimately show ?thesis using Cons.IH by simp
  next
    case False
    then have "length (split_on CHR '','' (strip line)) \<noteq> 2"
      by (simp add: length_split_strip)
    then show ?thesis
      by (auto split: list.splits)
  qed
qed

subsection \<open>Labels\<close>

lemma get_labels_on_disk:
  assumes "labels_on_disk fs d ls" and "cache_agrees d ls"
  shows "get_labels (d, fs) = (Inr ls, d\<lparr>cache_labels := Some ls\<rparr>, fs)"
proof (cases "cache_labels d")
  case None
  with assms(1) show ?thesis
    by (auto simp: get_labels_def labels_on_disk_def open_read_def node_at_def
        split: option.splits node.splits)
next
  case (Some cached)
  with assms(2) have "cached = ls" by (simp add: cache_agrees_def)
  with Some show ?thesis by (simp add: get_labels_def)
qed

lemma drop_cache_filled: "drop_cache (d\<lparr>cache_labels := c\<rparr>) = drop_cache d"
  by (simp add: drop_cache_def)

lemma label_file_cache: "label_file (d\<lparr>cache_labels := c\<rparr>) = label_file d"
  by (simp add: label_file_def)

lemma label_file_drop_cache: "label_file (drop_cache d) = label_file d"
  by (simp add: label_file_def drop_cache_def)

lemma labels_on_disk_cache:
  "labels_on_disk fs (d\<lparr>cache_labels := c\<rparr>) ls \<longleftrightarrow> labels_on_disk fs d ls"
  by (simp add: labels_on_disk_def label_file_cache)

lemma labels_on_disk_drop_cache:
  "labels_on_disk fs (drop_cache d) ls \<longleftrightarrow> labels_on_disk fs d ls"
  by (simp add: labels_on_disk_def label_file_drop_cache)

lemma add_label_present:
  assumes "labels_on_disk fs d ls" and "cache_agrees d ls" and "l \<in> set ls"
  shows "add_label l (d, fs) = (Inr (), d\<lparr>cache_labels := Some ls\<rparr>, fs)"
  using assms(3) by (simp add: add_label_def get_labels_on_disk [OF assms(1,2)])

lemma add_label_absent:
  assumes "labels_on_disk fs d ls" and "cache_agrees d ls" and "l \<notin> set ls"
  shows "\<exists>fs'. add_label l (d, fs) = (Inr (), drop_cache d, fs') \<and>
           (clean_label l \<longrightarrow> labels_on_disk fs' (drop_cache d) (ls @ [l])) \<and>
           node_at fs' (label_file d) =
             Some (File ((case node_at fs (label_file d) of Some (File old) \<Rightarrow> old | _ \<Rightarrow> [])
                         @ label_line l))"
proof -
  let ?p = "label_file d"
  define old where "old = (case node_at fs ?p of Some (File old) \<Rightarrow> old | _ \<Rightarrow> [])"
  from assms(1) obtain k where k: "resolve fs ?p = Some k"
    by (auto simp: labels_on_disk_def split: option.splits)
  from assms(1) k have old: "old = [] \<or> last old = CHR 0x0A"
      "parse_lines (readlines old) [] = Inr ls"
    and "\<exists>fs'. open_append ?p (label_line l) fs = Inr fs'"
    by (auto simp: labels_on_disk_def old_def node_at_def open_append_def readlines_def
        split: option.splits node.splits)
  then obtain fs' where app: "open_append ?p (label_line l) fs = Inr fs'"
    by blast
  from open_append_result [OF app]
  have stored: "node_at fs' ?p = Some (File (old @ label_line l))"
    and same: "resolve fs' ?p = resolve fs ?p"
    by (simp_all add: old_def)
  have run: "add_label l (d, fs) = (Inr (), drop_cache d, fs')"
    using assms(3) app
    by (simp add: add_label_def get_labels_on_disk [OF assms(1,2)] label_file_cache
        drop_cache_filled)
  have "labels_on_disk fs' (drop_cache d) (ls @ [l])" if "clean_label l"
  proof -
    from stored same k have "entry fs' k = Some (File (old @ label_line l))"
      by (simp add: node_at_def)
    moreover have "last (old @ label_line l) = CHR 0x0A"
      by (simp add: label_line_def)
    ultimately show ?thesis
      using same k load_append [OF old that]
      by (simp add: labels_on_disk_def label_file_drop_cache)
  qed
  with run stored show ?thesis
    unfolding old_def by blast
qed


text \<open>
  C7: when the label \<open>l\<close> is not in the list of labels of the document, \<open>remove_label l\<close> and
  \<open>update_label l l2\<close> return without an error and leave the whole file system, and with it
  every byte of the label file, as it was; of the document only the cache is filled by the
  read of the list.
\<close>

theorem label_noop:
  assumes "get_labels (d, fs) = (Inr labels, d1, fs1)" and "l \<notin> set labels"
  shows "remove_label l (d, fs) = (Inr (), d1, fs) \<and>
         update_label l l2 (d, fs) = (Inr (), d1, fs) \<and>
         docid d1 = docid d \<and> path d1 = path d"
proof -
  have "fs1 = fs" "docid d1 = docid d \<and> path d1 = path d"
    using assms(1) by (auto simp: get_labels_def split: option.splits sum.splits)
  with assms show ?thesis
    by (simp add: remove_label_def update_label_def)
qed

theorem label_noop_witness:
  "get_labels (doc_a, fs_tax) = (Inr [tax], doc_a\<lparr>cache_labels := Some [tax]\<rparr>, fs_tax) \<and>
   work \<notin> set [tax] \<and>
   remove_label work (doc_a, fs_tax) = (Inr (), doc_a\<lparr>cache_labels := Some [tax]\<rparr>, fs_tax) \<and>
   update_label work tax (doc_a, fs_tax) = (Inr (), doc_a\<lparr>cache_labels := Some [tax]\<rparr>, fs_tax)"
proof -
  have run: "get_labels (doc_a, fs_tax) = (Inr [tax], doc_a\<lparr>cache_labels := Some [tax]\<rparr>, fs_tax)"
    by code_simp
  have new: "work \<notin> set [tax]"
    by code_simp
  from label_noop [OF run new, of tax] run new show ?thesis
    by simp
qed

lemma add_labels_on_disk:
  assumes "labels_on_disk fs d ls0" and "cache_agrees d ls0"
    and "list_all clean_label ls" and "distinct ls" and "set ls \<inter> set ls0 = {}"
  shows "\<exists>d' fs'. add_labels ls (d, fs) = (Inr (), d', fs') \<and>
           labels_on_disk fs' d' (ls0 @ ls) \<and> label_file d' = label_file d"
  using assms
proof (induction ls arbitrary: d fs ls0)
  case Nil
  then show ?case by simp
next
  case (Cons l ls)
  from Cons.prems have new: "l \<notin> set ls0" and clean: "clean_label l" by auto
  from add_label_absent [OF Cons.prems(1,2) new] clean obtain fs1
    where run: "add_label l (d, fs) = (Inr (), drop_cache d, fs1)"
      and disk: "labels_on_disk fs1 (drop_cache d) (ls0 @ [l])"
    by blast
  have agree: "cache_agrees (drop_cache d) (ls0 @ [l])"
    by (simp add: cache_agrees_def drop_cache_def)
  from Cons.prems have rest: "list_all clean_label ls" "distinct ls"
    "set ls \<inter> set (ls0 @ [l]) = {}"
    by auto
  from Cons.IH [OF disk agree rest] obtain d' fs'
    where "add_labels ls (drop_cache d, fs1) = (Inr (), d', fs')"
      "labels_on_disk fs' d' ((ls0 @ [l]) @ ls)" "label_file d' = label_file (drop_cache d)"
    by blast
  with run show ?case
    by (simp add: label_file_drop_cache)
qed

text \<open>
  C3, as amended: when the label file holds the labels \<open>ls0\<close> (none, for a document without
  a label file) and the cache agrees with it, adding the labels of a list \<open>ls\<close> one after the
  other succeeds, provided they are labels the file format keeps, pairwise different and not
  in \<open>ls0\<close>; reading the labels with a dropped cache then returns \<open>ls0\<close> followed by \<open>ls\<close>, in
  the order of the list.
\<close>

theorem labels_round_trip:
  assumes "labels_on_disk fs d ls0" and "cache_agrees d ls0"
    and "list_all clean_label ls" and "distinct ls" and "set ls \<inter> set ls0 = {}"
  shows "\<exists>d' fs'. add_labels ls (d, fs) = (Inr (), d', fs') \<and>
           fst (get_labels (drop_cache d', fs')) = Inr (ls0 @ ls)"
proof -
  from add_labels_on_disk [OF assms] obtain d' fs'
    where run: "add_labels ls (d, fs) = (Inr (), d', fs')"
      and disk: "labels_on_disk fs' d' (ls0 @ ls)"
    by blast
  have "labels_on_disk fs' (drop_cache d') (ls0 @ ls)"
    using disk by (simp add: labels_on_disk_drop_cache)
  moreover have "cache_agrees (drop_cache d') (ls0 @ ls)"
    by (simp add: cache_agrees_def drop_cache_def)
  ultimately have "fst (get_labels (drop_cache d', fs')) = Inr (ls0 @ ls)"
    using get_labels_on_disk [of fs' "drop_cache d'" "ls0 @ ls"] by simp
  with run show ?thesis by blast
qed

theorem labels_round_trip_witness:
  "labels_on_disk fs_a doc_a [] \<and> cache_agrees doc_a [] \<and>
   list_all clean_label [work, tax] \<and> distinct [work, tax] \<and> set [work, tax] \<inter> set [] = {} \<and>
   (\<exists>d' fs'. add_labels [work, tax] (doc_a, fs_a) = (Inr (), d', fs') \<and>
           fst (get_labels (drop_cache d', fs')) = Inr [work, tax])"
proof -
  have h: "labels_on_disk fs_a doc_a []" "cache_agrees doc_a []"
    "list_all clean_label [work, tax]" "distinct [work, tax]"
    by code_simp+
  have e: "set [work, tax] \<inter> set [] = {}"
    by simp
  from labels_round_trip [OF h e] h e show ?thesis by simp
qed

text \<open>
  C3 as stated asks only for names and colours without commas and newlines. The label
  \<open>padded\<close> has neither and is read back as \<open>work\<close>; the list \<open>[work, work]\<close> is read back as
  \<open>[work]\<close>, since the second call adds nothing.
\<close>

theorem padded_or_repeated_labels_change:
  "fst (add_labels [padded] (doc_a, fs_a)) = Inr () \<and>
   fst (get_labels (drop_cache (fst (snd (add_labels [padded] (doc_a, fs_a)))),
                    snd (snd (add_labels [padded] (doc_a, fs_a))))) = Inr [work] \<and>
   [work] \<noteq> [padded] \<and>
   fst (add_labels [work, work] (doc_a, fs_a)) = Inr () \<and>
   fst (get_labels (drop_cache (fst (snd (add_labels [work, work] (doc_a, fs_a)))),
                    snd (snd (add_labels [work, work] (doc_a, fs_a))))) = Inr [work]"
  by code_simp

text \<open>
  C4, as amended: when the label file holds the labels \<open>ls\<close>, the cache agrees with it, and
  \<open>l\<close> is a label the file format keeps, \<open>add_label l\<close> succeeds, and a second \<open>add_label l\<close>
  succeeds too, changes no file and leaves the same list of labels to be read: \<open>ls\<close> when \<open>l\<close>
  was in it, otherwise \<open>ls\<close> followed by \<open>l\<close>.
\<close>

theorem add_label_twice:
  assumes "labels_on_disk fs d ls" and "cache_agrees d ls" and "clean_label l"
  shows "\<exists>d1 fs1 ls1.
           add_label l (d, fs) = (Inr (), d1, fs1) \<and>
           get_labels (d1, fs1) = (Inr ls1, d1\<lparr>cache_labels := Some ls1\<rparr>, fs1) \<and>
           add_label l (d1, fs1) = (Inr (), d1\<lparr>cache_labels := Some ls1\<rparr>, fs1) \<and>
           get_labels (d1\<lparr>cache_labels := Some ls1\<rparr>, fs1) =
             (Inr ls1, d1\<lparr>cache_labels := Some ls1\<rparr>, fs1) \<and>
           ls1 = (if l \<in> set ls then ls else ls @ [l])"
proof (cases "l \<in> set ls")
  case True
  let ?d1 = "d\<lparr>cache_labels := Some ls\<rparr>"
  have disk: "labels_on_disk fs ?d1 ls"
    using assms(1) by (simp add: labels_on_disk_cache)
  have agree: "cache_agrees ?d1 ls"
    by (simp add: cache_agrees_def)
  have "add_label l (d, fs) = (Inr (), ?d1, fs)"
    by (rule add_label_present [OF assms(1,2) True])
  moreover have "get_labels (?d1, fs) = (Inr ls, ?d1\<lparr>cache_labels := Some ls\<rparr>, fs)"
    by (rule get_labels_on_disk [OF disk agree])
  moreover have "add_label l (?d1, fs) = (Inr (), ?d1\<lparr>cache_labels := Some ls\<rparr>, fs)"
    by (rule add_label_present [OF disk agree True])
  moreover have "get_labels (?d1\<lparr>cache_labels := Some ls\<rparr>, fs) =
      (Inr ls, ?d1\<lparr>cache_labels := Some ls\<rparr>, fs)"
    by (simp add: get_labels_def)
  ultimately show ?thesis using True
    by (intro exI [of _ ?d1] exI [of _ fs] exI [of _ ls]) simp
next
  case False
  let ?d1 = "drop_cache d" and ?ls1 = "ls @ [l]"
  from add_label_absent [OF assms(1,2) False] assms(3) obtain fs1
    where run: "add_label l (d, fs) = (Inr (), ?d1, fs1)"
      and disk: "labels_on_disk fs1 ?d1 ?ls1"
    by blast
  have agree: "cache_agrees ?d1 ?ls1"
    by (simp add: cache_agrees_def drop_cache_def)
  have "get_labels (?d1, fs1) = (Inr ?ls1, ?d1\<lparr>cache_labels := Some ?ls1\<rparr>, fs1)"
    by (rule get_labels_on_disk [OF disk agree])
  moreover have "add_label l (?d1, fs1) = (Inr (), ?d1\<lparr>cache_labels := Some ?ls1\<rparr>, fs1)"
    by (rule add_label_present [OF disk agree]) simp
  moreover have "get_labels (?d1\<lparr>cache_labels := Some ?ls1\<rparr>, fs1) =
      (Inr ?ls1, ?d1\<lparr>cache_labels := Some ?ls1\<rparr>, fs1)"
    by (simp add: get_labels_def)
  ultimately show ?thesis using run False
    by (intro exI [of _ ?d1] exI [of _ fs1] exI [of _ ?ls1]) simp
qed

theorem add_label_twice_witness:
  "labels_on_disk fs_tax doc_a [tax] \<and> cache_agrees doc_a [tax] \<and> clean_label work \<and>
   (\<exists>d1 fs1.
      add_label work (doc_a, fs_tax) = (Inr (), d1, fs1) \<and>
      get_labels (d1, fs1) = (Inr [tax, work], d1\<lparr>cache_labels := Some [tax, work]\<rparr>, fs1) \<and>
      add_label work (d1, fs1) = (Inr (), d1\<lparr>cache_labels := Some [tax, work]\<rparr>, fs1) \<and>
      get_labels (d1\<lparr>cache_labels := Some [tax, work]\<rparr>, fs1) =
        (Inr [tax, work], d1\<lparr>cache_labels := Some [tax, work]\<rparr>, fs1))"
proof -
  have h: "labels_on_disk fs_tax doc_a [tax]" "cache_agrees doc_a [tax]" "clean_label work"
    by code_simp+
  have new: "work \<notin> set [tax]"
    by code_simp
  from add_label_twice [OF h] new h show ?thesis by auto
qed

text \<open>
  C4 as stated holds for every label. The name of \<open>padded\<close> begins with a blank, which the
  read strips: after one call the labels read are \<open>[work]\<close>, which has no \<open>padded\<close>, so the
  second call appends a second line, and the labels read are \<open>[work, work]\<close>.
\<close>

theorem padded_label_added_twice:
  "fst (add_label padded (doc_a, fs_a)) = Inr () \<and>
   fst (get_labels (snd (add_label padded (doc_a, fs_a)))) = Inr [work] \<and>
   fst (add_label padded (snd (add_label padded (doc_a, fs_a)))) = Inr () \<and>
   fst (get_labels (snd (add_label padded (snd (add_label padded (doc_a, fs_a)))))) = Inr [work, work]"
  by code_simp




text \<open>
  C10, as amended: when the labels are not in the cache, reading them raises ValueError if
  the label file is a file with a line that does not split at commas into exactly two
  fields, and nothing is changed; if there is no such file to open, the IOError is caught,
  and the result is the empty list, which is cached.
\<close>

theorem get_labels_malformed:
  assumes "cache_labels d = None"
  shows "(node_at fs (label_file d) = Some (File text) \<and>
          (\<exists>line\<in>set (readlines text). length (split_on CHR '','' line) \<noteq> 2)
            \<longrightarrow> get_labels (d, fs) = (Inl ValueError, d, fs)) \<and>
         ((\<forall>t. node_at fs (label_file d) \<noteq> Some (File t))
            \<longrightarrow> get_labels (d, fs) = (Inr [], d\<lparr>cache_labels := Some []\<rparr>, fs))"
proof (intro conjI impI)
  assume "node_at fs (label_file d) = Some (File text) \<and>
          (\<exists>line\<in>set (readlines text). length (split_on CHR '','' line) \<noteq> 2)"
  then show "get_labels (d, fs) = (Inl ValueError, d, fs)"
    using assms parse_lines_bad [of "readlines text" "[]"]
    by (simp add: get_labels_def open_read_def)
next
  assume "\<forall>t. node_at fs (label_file d) \<noteq> Some (File t)"
  then show "get_labels (d, fs) = (Inr [], d\<lparr>cache_labels := Some []\<rparr>, fs)"
    using assms
    by (auto simp: get_labels_def open_read_def split: option.splits node.splits)
qed

theorem get_labels_malformed_witness:
  "cache_labels doc_a = None \<and>
   node_at fs_bad (label_file doc_a) = Some (File ''Work\<newline>'') \<and>
   (\<exists>line\<in>set (readlines ''Work\<newline>''). length (split_on CHR '','' line) \<noteq> 2) \<and>
   get_labels (doc_a, fs_bad) = (Inl ValueError, doc_a, fs_bad) \<and>
   (\<forall>t. node_at fs_a (label_file doc_a) \<noteq> Some (File t)) \<and>
   get_labels (doc_a, fs_a) = (Inr [], doc_a\<lparr>cache_labels := Some []\<rparr>, fs_a)"
proof -
  have c: "cache_labels doc_a = None"
    by code_simp
  have f: "node_at fs_bad (label_file doc_a) = Some (File ''Work\<newline>'')"
    by code_simp
  have rl: "readlines ''Work\<newline>'' = [''Work\<newline>'']"
    by code_simp
  have b: "\<exists>line\<in>set (readlines ''Work\<newline>''). length (split_on CHR '','' line) \<noteq> 2"
    unfolding rl by simp
  have m: "node_at fs_a (label_file doc_a) = None"
    by code_simp
  then have n: "\<forall>t. node_at fs_a (label_file doc_a) \<noteq> Some (File t)"
    by simp
  from get_labels_malformed [OF c, of fs_bad "''Work\<newline>''"] f b
  have "get_labels (doc_a, fs_bad) = (Inl ValueError, doc_a, fs_bad)" by blast
  moreover from get_labels_malformed [OF c, of fs_a] n
  have "get_labels (doc_a, fs_a) = (Inr [], doc_a\<lparr>cache_labels := Some []\<rparr>, fs_a)" by blast
  ultimately show ?thesis using c f b n by blast
qed

text \<open>
  C10 as stated holds for every read. When the cache has a list of labels the file is not
  opened: the only line of the label file of \<open>fs_bad\<close> has no comma, and the read returns
  the cached list.
\<close>

theorem cached_labels_hide_bad_file:
  "node_at fs_bad (label_file (doc_a\<lparr>cache_labels := Some []\<rparr>)) = Some (File ''Work\<newline>'') \<and>
   readlines ''Work\<newline>'' = [''Work\<newline>''] \<and>
   split_on CHR '','' ''Work\<newline>'' = [''Work\<newline>''] \<and>
   get_labels (doc_a\<lparr>cache_labels := Some []\<rparr>, fs_bad) =
     (Inr [], doc_a\<lparr>cache_labels := Some []\<rparr>, fs_bad)"
  by code_simp

end
